theory Spec2Isabelle
  imports Main "HOL-Library.Word"
begin

section \<open>The execution-state engine of StateManager.h\<close>

text \<open>
  The engine keeps a chain of \<open>FunctionState\<close> nodes on the C++ heap, linked by raw
  pointers in both directions, and one pointer \<open>currentState\<close> into that chain. Claims
  about it depend on which node a pointer refers to and on which nodes \<open>delete\<close> frees, so
  the heap is modelled as an explicit store from addresses to nodes. Address \<open>0\<close> is the
  null pointer. Reading or writing through a null pointer, or through a pointer whose
  node has been freed, is undefined behaviour in C++; here it is an error value.

  Integer widths are those of the Arduino AVR targets the library is written for:
  \<open>uint8_t\<close> is 8 bits, \<open>unsigned long\<close> and \<open>uint32_t\<close> are 32 bits, \<open>int\<close> is 16
  bits. Debug output on \<open>Serial\<close> does not touch the engine state and is left out.
\<close>

subsection \<open>Step constants\<close>

definition stepStart :: "8 word" where "stepStart = 1"
definition stepListen :: "8 word" where "stepListen = 2"
definition stepSend :: "8 word" where "stepSend = 3"
definition stepReceive :: "8 word" where "stepReceive = 4"
definition stepPower :: "8 word" where "stepPower = 5"
definition stepTimeout :: "8 word" where "stepTimeout = 6"
definition stepEnd :: "8 word" where "stepEnd = 7"
definition stepTest1 :: "8 word" where "stepTest1 = 91"
definition stepTest2 :: "8 word" where "stepTest2 = 92"
definition stepTest3 :: "8 word" where "stepTest3 = 93"
definition stepTest4 :: "8 word" where "stepTest4 = 94"
definition stepSuccess :: "8 word" where "stepSuccess = 101"
definition stepFailure :: "8 word" where "stepFailure = 102"

definition appSteps :: "8 word list" where
  "appSteps = [stepStart, stepListen, stepSend, stepReceive, stepPower, stepTimeout,
     stepEnd, stepTest1, stepTest2, stepTest3, stepTest4]"

subsection \<open>Frames, the heap and the engine\<close>

type_synonym addr = nat

record FunctionState =
  functionName :: string
  parentState :: addr
  childState :: addr
  currentStep :: "8 word"
  nextStep :: "8 word"
  delayUntil :: "32 word"
  int1 :: "16 word"
  uint1 :: "8 word"
  ulong1 :: "32 word"
  string1 :: string

record engine =
  heap :: "addr \<Rightarrow> FunctionState option"
  currentState :: addr

datatype error = NullDeref | Dangling

text \<open>A freshly constructed \<open>StateManager\<close>: no node allocated, \<open>currentState = 0\<close>.\<close>

definition empty_engine :: engine where
  "empty_engine = \<lparr>heap = (\<lambda>_. None), currentState = 0\<rparr>"

text \<open>\<open>p->field\<close> as a read: the node \<open>p\<close> points to, if there is one.\<close>

definition deref :: "engine \<Rightarrow> addr \<Rightarrow> error + FunctionState" where
  "deref s p =
     (if p = 0 then Inl NullDeref
      else case heap s p of None \<Rightarrow> Inl Dangling | Some f \<Rightarrow> Inr f)"

text \<open>\<open>p->field = v\<close> as a write: the node at \<open>p\<close> replaced by \<open>g\<close> of it.\<close>

definition modify :: "addr \<Rightarrow> (FunctionState \<Rightarrow> FunctionState) \<Rightarrow> engine \<Rightarrow> error + engine" where
  "modify p g s =
     (case deref s p of
        Inl e \<Rightarrow> Inl e
      | Inr f \<Rightarrow> Inr (s\<lparr>heap := (heap s)(p \<mapsto> g f)\<rparr>))"

text \<open>
  \<open>delete p\<close>. \<open>FunctionState\<close> declares no destructor, so only the node itself is
  freed: the nodes its \<open>childState\<close> and \<open>parentState\<close> point to stay allocated.
  Deleting a null pointer does nothing.
\<close>

definition delete :: "addr \<Rightarrow> engine \<Rightarrow> error + engine" where
  "delete p s =
     (if p = 0 then Inr s
      else case heap s p of
        None \<Rightarrow> Inl Dangling
      | Some f \<Rightarrow> Inr (s\<lparr>heap := (heap s)(p := None)\<rparr>))"

text \<open>Sequencing of fallible steps: the first error ends the call.\<close>

definition andThen :: "error + 'a \<Rightarrow> ('a \<Rightarrow> error + 'b) \<Rightarrow> error + 'b" where
  "andThen r k = (case r of Inl e \<Rightarrow> Inl e | Inr x \<Rightarrow> k x)"

subsection \<open>The operations\<close>

text \<open>
  \<open>createState\<close>. The first argument is the address \<open>new FunctionState()\<close> returns; the
  allocator chooses it, so it is an input of the model. On these targets a failed
  \<open>new\<close> returns null, and the assignments that follow dereference it.
\<close>

definition newFrame :: "string \<Rightarrow> 8 word \<Rightarrow> addr \<Rightarrow> FunctionState" where
  "newFrame functionName0 firstStep parentState0 =
     \<lparr>functionName = functionName0, parentState = parentState0, childState = 0,
      currentStep = firstStep, nextStep = 0, delayUntil = 0,
      int1 = 0, uint1 = 0, ulong1 = 0, string1 = []\<rparr>"

definition createState :: "addr \<Rightarrow> string \<Rightarrow> 8 word \<Rightarrow> addr \<Rightarrow> engine \<Rightarrow> error + (addr \<times> engine)" where
  "createState a functionName0 firstStep parentState0 s =
     (if a = 0 then Inl NullDeref
      else Inr (a, s\<lparr>heap := (heap s)(a \<mapsto> newFrame functionName0 firstStep parentState0)\<rparr>))"

definition destroy :: "engine \<Rightarrow> error + engine" where
  "destroy s =
     (if currentState s = 0 then Inr s
      else andThen (deref s (currentState s)) (\<lambda>cur.
        andThen (if childState cur \<noteq> 0
                 then andThen (delete (childState cur) s)
                        (modify (currentState s) (\<lambda>f. f\<lparr>childState := 0\<rparr>))
                 else Inr s) (\<lambda>s1.
        andThen (delete (currentState s) s1) (\<lambda>s2.
        Inr (s2\<lparr>currentState := 0\<rparr>)))))"

definition init :: "engine \<Rightarrow> error + engine" where
  "init s = destroy s"

definition destructor :: "engine \<Rightarrow> error + engine" where
  "destructor s = destroy s"

definition getStatus :: "engine \<Rightarrow> error + (8 word \<times> engine)" where
  "getStatus s =
     (if currentState s = 0 then Inr (0, s)
      else andThen (deref s (currentState s)) (\<lambda>cur. Inr (currentStep cur, s)))"

definition resetDelay :: "engine \<Rightarrow> error + (32 word \<times> engine)" where
  "resetDelay s =
     andThen (deref s (currentState s)) (\<lambda>cur.
     andThen (modify (currentState s) (\<lambda>f. f\<lparr>delayUntil := 0\<rparr>) s) (\<lambda>s1.
     Inr (delayUntil cur, s1)))"

text \<open>The value \<open>begin\<close> returns: \<open>currentState->currentStep\<close>.\<close>

definition returnStep :: "engine \<Rightarrow> error + (8 word \<times> engine)" where
  "returnStep s = andThen (deref s (currentState s)) (\<lambda>cur. Inr (currentStep cur, s))"

text \<open>The branch of \<open>begin\<close> that replaces the child of the current frame.\<close>

definition newChild :: "addr \<Rightarrow> string \<Rightarrow> 8 word \<Rightarrow> addr \<Rightarrow> engine \<Rightarrow> error + engine" where
  "newChild a functionName0 firstStep childState0 s =
     andThen (if childState0 \<noteq> 0 then delete childState0 s else Inr s) (\<lambda>s1.
     andThen (createState a functionName0 firstStep (currentState s1) s1) (\<lambda>(c, s2).
     andThen (modify (currentState s2) (\<lambda>f. f\<lparr>childState := c\<rparr>) s2) (\<lambda>s3.
     Inr (s3\<lparr>currentState := c\<rparr>))))"

text \<open>\<open>begin\<close> (a keyword of Isabelle, hence the suffix).\<close>

definition begin_call :: "addr \<Rightarrow> string \<Rightarrow> 8 word \<Rightarrow> engine \<Rightarrow> error + (8 word \<times> engine)" where
  "begin_call a functionName0 firstStep s =
     andThen
       (if currentState s = 0 then
          andThen (createState a functionName0 firstStep 0 s) (\<lambda>(c, s1).
          Inr (s1\<lparr>currentState := c\<rparr>))
        else andThen (deref s (currentState s)) (\<lambda>cur.
          if functionName cur = functionName0 then Inr s
          else if childState cur = 0 then
            newChild a functionName0 firstStep (childState cur) s
          else andThen (deref s (childState cur)) (\<lambda>ch.
            if functionName ch \<noteq> functionName0 then
              newChild a functionName0 firstStep (childState cur) s
            else Inr (s\<lparr>currentState := childState cur\<rparr>))))
       returnStep"

definition setState_int :: "16 word \<Rightarrow> engine \<Rightarrow> error + engine" where
  "setState_int v s = modify (currentState s) (\<lambda>f. f\<lparr>int1 := v\<rparr>) s"

definition setState_uint8 :: "8 word \<Rightarrow> engine \<Rightarrow> error + engine" where
  "setState_uint8 v s = modify (currentState s) (\<lambda>f. f\<lparr>uint1 := v\<rparr>) s"

definition setState_ulong :: "32 word \<Rightarrow> engine \<Rightarrow> error + engine" where
  "setState_ulong v s = modify (currentState s) (\<lambda>f. f\<lparr>ulong1 := v\<rparr>) s"

definition setState_String :: "string \<Rightarrow> engine \<Rightarrow> error + engine" where
  "setState_String v s = modify (currentState s) (\<lambda>f. f\<lparr>string1 := v\<rparr>) s"

definition getState_int :: "engine \<Rightarrow> error + (16 word \<times> engine)" where
  "getState_int s = andThen (deref s (currentState s)) (\<lambda>cur. Inr (int1 cur, s))"

definition getState_uint8 :: "engine \<Rightarrow> error + (8 word \<times> engine)" where
  "getState_uint8 s = andThen (deref s (currentState s)) (\<lambda>cur. Inr (uint1 cur, s))"

definition getState_ulong :: "engine \<Rightarrow> error + (32 word \<times> engine)" where
  "getState_ulong s = andThen (deref s (currentState s)) (\<lambda>cur. Inr (ulong1 cur, s))"

definition getState_String :: "engine \<Rightarrow> error + (string \<times> engine)" where
  "getState_String s = andThen (deref s (currentState s)) (\<lambda>cur. Inr (string1 cur, s))"

definition popState :: "8 word \<Rightarrow> 8 word \<Rightarrow> engine \<Rightarrow> error + engine" where
  "popState currentStep0 nextStep0 s =
     (if currentState s = 0 then Inr s
      else
        andThen (modify (currentState s) (\<lambda>f. f\<lparr>currentStep := currentStep0\<rparr>) s) (\<lambda>s1.
        andThen (modify (currentState s1) (\<lambda>f. f\<lparr>nextStep := nextStep0\<rparr>) s1) (\<lambda>s2.
        andThen (deref s2 (currentState s2)) (\<lambda>cur.
        andThen (if nextStep0 \<noteq> 0 \<and> childState cur = 0
                 then modify (currentState s2)
                        (\<lambda>f. f\<lparr>currentStep := nextStep0, nextStep := 0\<rparr>) s2
                 else Inr s2) (\<lambda>s3.
        andThen (deref s3 (currentState s3)) (\<lambda>cur3.
        Inr (if parentState cur3 \<noteq> 0 then s3\<lparr>currentState := parentState cur3\<rparr>
             else s3)))))))"

definition transitionState :: "engine \<Rightarrow> error + (bool \<times> engine)" where
  "transitionState s =
     andThen (deref s (currentState s)) (\<lambda>cur.
     if childState cur = 0 then Inr (False, s)
     else
       andThen (deref s (childState cur)) (\<lambda>ch.
       andThen (if delayUntil ch \<noteq> 0
                then andThen (modify (currentState s) (\<lambda>f. f\<lparr>delayUntil := delayUntil ch\<rparr>) s)
                       (modify (childState cur) (\<lambda>f. f\<lparr>delayUntil := 0\<rparr>))
                else Inr s) (\<lambda>s1.
       andThen (deref s1 (childState cur)) (\<lambda>ch1.
       if currentStep ch1 \<noteq> stepSuccess \<and> currentStep ch1 \<noteq> stepFailure
       then Inr (False, s1)
       else
         andThen (if currentStep ch1 = stepFailure
                  then modify (currentState s1) (\<lambda>f. f\<lparr>currentStep := stepFailure\<rparr>) s1
                  else modify (currentState s1)
                         (\<lambda>f. f\<lparr>currentStep := nextStep f, nextStep := 0\<rparr>) s1) (\<lambda>s2.
         andThen (delete (childState cur) s2) (\<lambda>s3.
         andThen (modify (currentState s3) (\<lambda>f. f\<lparr>childState := 0\<rparr>) s3) (\<lambda>s4.
         Inr (True, s4))))))))"

text \<open>
  \<open>suspend(nextStep, delay)\<close>. The argument \<open>now\<close> is the value \<open>millis()\<close> returns; it is
  read only when \<open>delay > 0\<close>. The sum \<open>millis() + delay\<close> wraps at 32 bits.
\<close>

definition suspend :: "8 word \<Rightarrow> 32 word \<Rightarrow> 32 word \<Rightarrow> engine \<Rightarrow> error + (bool \<times> engine)" where
  "suspend nextStep0 delay now s =
     andThen (deref s (currentState s)) (\<lambda>cur.
     andThen (popState (currentStep cur) nextStep0 s) (\<lambda>s1.
     andThen (if delay > 0
              then modify (currentState s1) (\<lambda>f. f\<lparr>delayUntil := now + delay\<rparr>) s1
              else Inr s1) (\<lambda>s2.
     andThen (transitionState s2) (\<lambda>(t, s3).
     andThen (deref s3 (currentState s3)) (\<lambda>cur3.
     Inr (currentStep cur3 \<noteq> stepFailure, s3))))))"

text \<open>
  The overload \<open>suspend()\<close>: \<open>suspend(currentState->currentStep)\<close> with the default
  delay 0, so that \<open>now\<close> is never read.
\<close>

definition suspend0 :: "32 word \<Rightarrow> engine \<Rightarrow> error + (bool \<times> engine)" where
  "suspend0 now s =
     andThen (deref s (currentState s)) (\<lambda>cur. suspend (currentStep cur) 0 now s)"

text \<open>\<open>end\<close> (a keyword of Isabelle, hence the suffix).\<close>

definition end_call :: "bool \<Rightarrow> engine \<Rightarrow> error + (bool \<times> engine)" where
  "end_call status s =
     andThen (if status then popState stepSuccess 0 s else popState stepFailure 0 s) (\<lambda>s1.
     andThen (transitionState s1) (\<lambda>(t, s2).
     Inr (status, s2)))"

subsection \<open>Sequences of calls\<close>

text \<open>
  A caller that invokes \<open>begin\<close> several times in a row with the same arguments; each call
  has its own answer of the allocator. The returned steps are collected in order.
\<close>

fun begins :: "addr list \<Rightarrow> string \<Rightarrow> 8 word \<Rightarrow> engine \<Rightarrow> error + (8 word list \<times> engine)" where
  "begins [] functionName0 firstStep s = Inr ([], s)"
| "begins (a # as) functionName0 firstStep s =
     andThen (begin_call a functionName0 firstStep s) (\<lambda>(r, s1).
     andThen (begins as functionName0 firstStep s1) (\<lambda>(rs, s2).
     Inr (r # rs, s2)))"

text \<open>
  The three calls by which a function body gives control back, each of which pops to the
  parent frame and runs the transition check there.
\<close>

datatype ascent = Suspend "8 word" "32 word" "32 word" | SuspendSame "32 word" | End bool

fun ascend :: "ascent \<Rightarrow> engine \<Rightarrow> error + (bool \<times> engine)" where
  "ascend (Suspend nextStep0 delay now) s = suspend nextStep0 delay now s"
| "ascend (SuspendSame now) s = suspend0 now s"
| "ascend (End status) s = end_call status s"

fun ascends :: "ascent list \<Rightarrow> engine \<Rightarrow> error + engine" where
  "ascends [] s = Inr s"
| "ascends (x # xs) s = andThen (ascend x s) (\<lambda>(b, s1). ascends xs s1)"

text \<open>
  The ascents that leave a frame whose step is \<open>stepFailure\<close>, and which has no child, at
  \<open>stepFailure\<close>: \<open>end(false)\<close>, \<open>suspend()\<close>, and \<open>suspend(n, d)\<close> with \<open>n\<close> zero or
  \<open>stepFailure\<close> itself. (\<open>popState\<close> overwrites the step with any other nonzero \<open>n\<close>, and
  \<open>end(true)\<close> with \<open>stepSuccess\<close>.)
\<close>

fun keepsFailure :: "ascent \<Rightarrow> bool" where
  "keepsFailure (Suspend nextStep0 delay now) = (nextStep0 = 0 \<or> nextStep0 = stepFailure)"
| "keepsFailure (SuspendSame now) = True"
| "keepsFailure (End status) = (\<not> status)"

subsection \<open>Well-formed chains\<close>

text \<open>
  \<open>upPath h c ps\<close>: in heap \<open>h\<close>, the frame at \<open>c\<close> is allocated and \<open>ps\<close> lists its ancestors
  from its parent up to the root; every frame on the way is its parent's child.
\<close>

fun upPath :: "(addr \<Rightarrow> FunctionState option) \<Rightarrow> addr \<Rightarrow> addr list \<Rightarrow> bool" where
  "upPath h c [] =
     (c \<noteq> 0 \<and> (case h c of None \<Rightarrow> False | Some f \<Rightarrow> parentState f = 0))"
| "upPath h c (p # ps) =
     (c \<noteq> 0 \<and> (case h c of None \<Rightarrow> False | Some f \<Rightarrow> parentState f = p) \<and>
      (case h p of None \<Rightarrow> False | Some g \<Rightarrow> childState g = c) \<and> upPath h p ps)"

text \<open>The frame at \<open>a\<close>, if it is allocated, holds no delay.\<close>

definition zeroDelay :: "(addr \<Rightarrow> FunctionState option) \<Rightarrow> addr \<Rightarrow> bool" where
  "zeroDelay h a = (case h a of None \<Rightarrow> True | Some f \<Rightarrow> delayUntil f = 0)"

text \<open>The frame \<open>popState\<close> leaves behind in place of the current frame \<open>f\<close>.\<close>

definition popped :: "8 word \<Rightarrow> 8 word \<Rightarrow> FunctionState \<Rightarrow> FunctionState" where
  "popped currentStep0 nextStep0 f =
     (if nextStep0 \<noteq> 0 \<and> childState f = 0
      then f\<lparr>currentStep := nextStep0, nextStep := 0\<rparr>
      else f\<lparr>currentStep := currentStep0, nextStep := nextStep0\<rparr>)"

subsection \<open>What one transition check does to a frame\<close>

text \<open>A frame whose step is one of the two terminal sentinels.\<close>

definition finished :: "FunctionState \<Rightarrow> bool" where
  "finished f = (currentStep f = stepSuccess \<or> currentStep f = stepFailure)"

text \<open>
  The frame \<open>f\<close> after its transition check has looked at its child \<open>ch\<close>: it takes over a
  nonzero delay, and if the child has finished it moves to \<open>stepFailure\<close> or to its own
  \<open>nextStep\<close> and drops the child link.
\<close>

definition observed :: "FunctionState \<Rightarrow> FunctionState \<Rightarrow> FunctionState" where
  "observed ch f =
     (let f1 = (if delayUntil ch \<noteq> 0 then f\<lparr>delayUntil := delayUntil ch\<rparr> else f) in
      if \<not> finished ch then f1
      else if currentStep ch = stepFailure then f1\<lparr>currentStep := stepFailure, childState := 0\<rparr>
      else f1\<lparr>currentStep := nextStep f1, nextStep := 0, childState := 0\<rparr>)"

text \<open>What is left at the child's address: nothing if it has finished, else the child
  with its delay cleared.\<close>

definition consumed :: "FunctionState \<Rightarrow> FunctionState option" where
  "consumed ch =
     (if finished ch then None
      else if delayUntil ch \<noteq> 0 then Some (ch\<lparr>delayUntil := 0\<rparr>) else Some ch)"

text \<open>The frame an ascent leaves behind in place of the current frame, and the delay it
  writes into the parent before the transition check.\<close>

fun poppedBy :: "ascent \<Rightarrow> FunctionState \<Rightarrow> FunctionState" where
  "poppedBy (Suspend n d now) f = popped (currentStep f) n f"
| "poppedBy (SuspendSame now) f = popped (currentStep f) (currentStep f) f"
| "poppedBy (End status) f = popped (if status then stepSuccess else stepFailure) 0 f"

fun delayedBy :: "ascent \<Rightarrow> FunctionState \<Rightarrow> FunctionState" where
  "delayedBy (Suspend n d now) f = (if d > 0 then f\<lparr>delayUntil := now + d\<rparr> else f)"
| "delayedBy (SuspendSame now) f = f"
| "delayedBy (End status) f = f"

subsection \<open>Reachable states\<close>

text \<open>
  \<open>downPath h c ks\<close>: \<open>ks\<close> lists the frames below the frame at \<open>c\<close>, its child first; the
  last one has no child. An engine state is well formed if it has no current frame, or
  the current frame lies on one chain of distinct frames from a root down to a childless
  frame, linked in both directions.
\<close>

fun downPath :: "(addr \<Rightarrow> FunctionState option) \<Rightarrow> addr \<Rightarrow> addr list \<Rightarrow> bool" where
  "downPath h c [] = (case h c of None \<Rightarrow> False | Some f \<Rightarrow> childState f = 0)"
| "downPath h c (k # ks) =
     (k \<noteq> 0 \<and> (case h c of None \<Rightarrow> False | Some f \<Rightarrow> childState f = k) \<and>
      (case h k of None \<Rightarrow> False | Some g \<Rightarrow> parentState g = c) \<and> downPath h k ks)"

definition wfEngine :: "engine \<Rightarrow> bool" where
  "wfEngine s = (currentState s = 0 \<or>
     (\<exists>ups downs. upPath (heap s) (currentState s) ups \<and>
        downPath (heap s) (currentState s) downs \<and>
        distinct (rev ups @ currentState s # downs)))"

text \<open>
  What the allocator may answer to the \<open>new\<close> in \<open>begin\<close>: an address that is not null and
  not allocated, or the address of the child that this \<open>begin\<close> frees first.
\<close>

definition allocatable :: "addr \<Rightarrow> string \<Rightarrow> engine \<Rightarrow> bool" where
  "allocatable a fn s = (a \<noteq> 0 \<and> (heap s a = None \<or>
     (case deref s (currentState s) of
        Inl e \<Rightarrow> False
      | Inr cur \<Rightarrow> functionName cur \<noteq> fn \<and> a = childState cur)))"

text \<open>The states an engine can be in after any sequence of successful public calls.\<close>

inductive reachable :: "engine \<Rightarrow> bool" where
  r_empty: "reachable empty_engine"
| r_begin: "reachable s \<Longrightarrow> allocatable a fn s \<Longrightarrow> begin_call a fn fs s = Inr (r, s') \<Longrightarrow> reachable s'"
| r_ascend: "reachable s \<Longrightarrow> ascend x s = Inr (b, s') \<Longrightarrow> reachable s'"
| r_resetDelay: "reachable s \<Longrightarrow> resetDelay s = Inr (d, s') \<Longrightarrow> reachable s'"
| r_setState_int: "reachable s \<Longrightarrow> setState_int i s = Inr s' \<Longrightarrow> reachable s'"
| r_setState_uint8: "reachable s \<Longrightarrow> setState_uint8 u s = Inr s' \<Longrightarrow> reachable s'"
| r_setState_ulong: "reachable s \<Longrightarrow> setState_ulong l s = Inr s' \<Longrightarrow> reachable s'"
| r_setState_String: "reachable s \<Longrightarrow> setState_String t s = Inr s' \<Longrightarrow> reachable s'"
| r_destroy: "reachable s \<Longrightarrow> destroy s = Inr s' \<Longrightarrow> reachable s'"

text \<open>
  The invariant of the reachable states. Besides the shape of the chain it says that the
  frames below the current one hold no delay; in the middle of \<open>suspend\<close> and \<open>end\<close>,
  between \<open>popState\<close> and the transition check, the frame just left may still hold one
  (\<open>q = 1\<close>).
\<close>

definition chainInv :: "nat \<Rightarrow> engine \<Rightarrow> bool" where
  "chainInv q s = (currentState s = 0 \<or>
     (\<exists>ups downs. upPath (heap s) (currentState s) ups \<and>
        downPath (heap s) (currentState s) downs \<and>
        distinct (rev ups @ currentState s # downs) \<and>
        list_all (zeroDelay (heap s)) (drop q downs)))"

text \<open>The two pointers of a frame.\<close>

definition links :: "FunctionState \<Rightarrow> addr \<times> addr" where
  "links f = (parentState f, childState f)"

subsection \<open>Example states\<close>

text \<open>
  States reached from the empty engine by \<open>begin\<close> calls, with the allocator answering
  1, 2, 3: a root frame \<open>A\<close> alone; \<open>A\<close> with a child \<open>B\<close>; and \<open>A\<close>, \<open>B\<close> and a grandchild
  \<open>C\<close>. The number in a name is the address of the current frame. In \<open>exAB1\<close> the child
  \<open>B\<close> has suspended to step 2 and \<open>A\<close> is current again.
\<close>

definition exA :: engine where
  "exA = \<lparr>heap = (\<lambda>_. None)(1 \<mapsto> newFrame ''A'' 1 0), currentState = 1\<rparr>"

definition exAB2 :: engine where
  "exAB2 = \<lparr>heap = (\<lambda>_. None)(1 \<mapsto> (newFrame ''A'' 1 0)\<lparr>childState := 2\<rparr>,
                                2 \<mapsto> newFrame ''B'' 1 1), currentState = 2\<rparr>"

definition exAB1 :: engine where
  "exAB1 = \<lparr>heap = (\<lambda>_. None)(1 \<mapsto> (newFrame ''A'' 1 0)\<lparr>childState := 2\<rparr>,
                                2 \<mapsto> newFrame ''B'' 2 1), currentState = 1\<rparr>"

definition exABC3 :: engine where
  "exABC3 = \<lparr>heap = (\<lambda>_. None)(1 \<mapsto> (newFrame ''A'' 1 0)\<lparr>childState := 2\<rparr>,
                                 2 \<mapsto> (newFrame ''B'' 1 1)\<lparr>childState := 3\<rparr>,
                                 3 \<mapsto> newFrame ''C'' 1 2), currentState = 3\<rparr>"

definition exABC2 :: engine where
  "exABC2 = \<lparr>heap = (\<lambda>_. None)(1 \<mapsto> (newFrame ''A'' 1 0)\<lparr>childState := 2\<rparr>,
                                 2 \<mapsto> (newFrame ''B'' 1 1)\<lparr>childState := 3\<rparr>,
                                 3 \<mapsto> newFrame ''C'' 2 2), currentState = 2\<rparr>"

text \<open>\<open>A\<close> alone, marked failed after its child \<open>B\<close> ended with \<open>end(false)\<close>.\<close>

definition exAfail :: engine where
  "exAfail = \<lparr>heap = (\<lambda>_. None)(1 \<mapsto> newFrame ''A'' stepFailure 0), currentState = 1\<rparr>"

text \<open>
  From \<open>exABC2\<close>: \<open>B\<close> has called \<open>suspend(7)\<close> while its child \<open>C\<close> is outstanding
  (\<open>exABC1\<close>); \<open>C\<close> has been entered again (\<open>exABC3'\<close>); \<open>C\<close> has ended with \<open>end(true)\<close>
  (\<open>exAB2'\<close>).
\<close>

definition exABC1 :: engine where
  "exABC1 = \<lparr>heap = (\<lambda>_. None)(1 \<mapsto> (newFrame ''A'' 1 0)\<lparr>childState := 2\<rparr>,
                                 2 \<mapsto> (newFrame ''B'' 1 1)\<lparr>childState := 3, nextStep := 7\<rparr>,
                                 3 \<mapsto> newFrame ''C'' 2 2), currentState = 1\<rparr>"

definition exABC3' :: engine where
  "exABC3' = exABC1\<lparr>currentState := 3\<rparr>"


text \<open>From \<open>exAB2\<close>: \<open>B\<close> has called \<open>suspend(2, 500)\<close> at time 1000.\<close>

definition exAB1d :: engine where
  "exAB1d = \<lparr>heap = (\<lambda>_. None)(1 \<mapsto> (newFrame ''A'' 1 0)\<lparr>childState := 2, delayUntil := 1500\<rparr>,
                                 2 \<mapsto> newFrame ''B'' 2 1), currentState = 1\<rparr>"

text \<open>
  A chain of four frames in which the frame \<open>C\<close>, two levels below the root, is current and
  holds the delay 1500 that its child \<open>D\<close> asked for; and the same chain after \<open>C\<close> and
  then \<open>B\<close> have suspended.
\<close>

definition exDelay3 :: engine where
  "exDelay3 = \<lparr>heap = (\<lambda>_. None)(1 \<mapsto> (newFrame ''A'' 1 0)\<lparr>childState := 2\<rparr>,
                                  2 \<mapsto> (newFrame ''B'' 1 1)\<lparr>childState := 3\<rparr>,
                                  3 \<mapsto> (newFrame ''C'' 1 2)\<lparr>childState := 4, delayUntil := 1500\<rparr>,
                                  4 \<mapsto> newFrame ''D'' 2 3), currentState = 3\<rparr>"

definition exDelay1 :: engine where
  "exDelay1 = \<lparr>heap = (\<lambda>_. None)(1 \<mapsto> (newFrame ''A'' 1 0)\<lparr>childState := 2, delayUntil := 1500\<rparr>,
                                  2 \<mapsto> (newFrame ''B'' 1 1)\<lparr>childState := 3, nextStep := 1\<rparr>,
                                  3 \<mapsto> (newFrame ''C'' 1 2)\<lparr>childState := 4, nextStep := 2\<rparr>,
                                  4 \<mapsto> newFrame ''D'' 2 3), currentState = 1\<rparr>"

text \<open>
  \<open>A\<close> with the child \<open>B\<close> current and marked failed, as \<open>end(false)\<close> of a grandchild
  leaves it.
\<close>

definition exABfail2 :: engine where
  "exABfail2 = \<lparr>heap = (\<lambda>_. None)(1 \<mapsto> (newFrame ''A'' 1 0)\<lparr>childState := 2\<rparr>,
                                   2 \<mapsto> newFrame ''B'' stepFailure 1), currentState = 2\<rparr>"

text \<open>
  The chain of four frames before \<open>D\<close> suspends (\<open>exABCD4\<close>); and what \<open>suspend(2, 9000)\<close>
  at time 2000 makes of \<open>exDelay3\<close>, first just before its transition check (\<open>exDelayMid\<close>),
  then at its end (\<open>exDelay2\<close>).
\<close>

definition exABCD4 :: engine where
  "exABCD4 = \<lparr>heap = (\<lambda>_. None)(1 \<mapsto> (newFrame ''A'' 1 0)\<lparr>childState := 2\<rparr>,
                                  2 \<mapsto> (newFrame ''B'' 1 1)\<lparr>childState := 3\<rparr>,
                                  3 \<mapsto> (newFrame ''C'' 1 2)\<lparr>childState := 4\<rparr>,
                                  4 \<mapsto> newFrame ''D'' 1 3), currentState = 4\<rparr>"

definition exDelayMid :: engine where
  "exDelayMid = \<lparr>heap = (\<lambda>_. None)(1 \<mapsto> (newFrame ''A'' 1 0)\<lparr>childState := 2\<rparr>,
                      2 \<mapsto> (newFrame ''B'' 1 1)\<lparr>childState := 3, delayUntil := 11000\<rparr>,
                      3 \<mapsto> (newFrame ''C'' 1 2)\<lparr>childState := 4, nextStep := 2, delayUntil := 1500\<rparr>,
                      4 \<mapsto> newFrame ''D'' 2 3), currentState = 2\<rparr>"

definition exDelay2 :: engine where
  "exDelay2 = \<lparr>heap = (\<lambda>_. None)(1 \<mapsto> (newFrame ''A'' 1 0)\<lparr>childState := 2\<rparr>,
                      2 \<mapsto> (newFrame ''B'' 1 1)\<lparr>childState := 3, delayUntil := 1500\<rparr>,
                      3 \<mapsto> (newFrame ''C'' 1 2)\<lparr>childState := 4, nextStep := 2\<rparr>,
                      4 \<mapsto> newFrame ''D'' 2 3), currentState = 2\<rparr>"

text \<open>After \<open>init()\<close> in \<open>exAB2\<close>: no current frame, but \<open>A\<close> is still allocated.\<close>

definition exLeak :: engine where
  "exLeak = \<lparr>heap = (\<lambda>_. None)(1 \<mapsto> (newFrame ''A'' 1 0)\<lparr>childState := 2\<rparr>),
             currentState = 0\<rparr>"

section \<open>Basic facts about the store\<close>

lemma andThen_Inr [simp]: "andThen (Inr x) k = k x"
  by (simp add: andThen_def)

lemma andThen_Inl [simp]: "andThen (Inl e) k = Inl e"
  by (simp add: andThen_def)

lemma deref_null [simp]: "deref s 0 = Inl NullDeref"
  by (simp add: deref_def)

lemma deref_Some: "p \<noteq> 0 \<Longrightarrow> heap s p = Some f \<Longrightarrow> deref s p = Inr f"
  by (simp add: deref_def)


lemma modify_Some:
  "p \<noteq> 0 \<Longrightarrow> heap s p = Some f \<Longrightarrow> modify p g s = Inr (s\<lparr>heap := (heap s)(p \<mapsto> g f)\<rparr>)"
  by (simp add: modify_def deref_Some)

lemma modify_null [simp]: "modify 0 g s = Inl NullDeref"
  by (simp add: modify_def)

lemma delete_Some:
  "p \<noteq> 0 \<Longrightarrow> heap s p = Some f \<Longrightarrow> delete p s = Inr (s\<lparr>heap := (heap s)(p := None)\<rparr>)"
  by (simp add: delete_def)

lemma newFrame_sel [simp]:
  "functionName (newFrame fn fs p) = fn" "parentState (newFrame fn fs p) = p"
  "childState (newFrame fn fs p) = 0" "currentStep (newFrame fn fs p) = fs"
  "nextStep (newFrame fn fs p) = 0" "delayUntil (newFrame fn fs p) = 0"
  by (simp_all add: newFrame_def)

section \<open>Closed forms of the internal steps\<close>

lemma popState_closed:
  assumes "currentState s = c" "c \<noteq> 0" "heap s c = Some f"
  shows "popState cs ns s =
    Inr (s\<lparr>heap := (heap s)(c \<mapsto> popped cs ns f),
           currentState := (if parentState f \<noteq> 0 then parentState f else c)\<rparr>)"
  using assms
  by (simp add: popState_def modify_Some deref_Some popped_def)

lemma transition_nochild:
  assumes "currentState s = p" "p \<noteq> 0" "heap s p = Some P" "childState P = 0"
  shows "transitionState s = Inr (False, s)"
  using assms by (simp add: transitionState_def deref_Some)

lemma transition_unfinished:
  assumes "currentState s = p" "p \<noteq> 0" "heap s p = Some P" "childState P = c" "c \<noteq> 0"
    "c \<noteq> p" "heap s c = Some C" "currentStep C \<noteq> stepSuccess" "currentStep C \<noteq> stepFailure"
  shows "transitionState s = Inr (False,
     if delayUntil C \<noteq> 0
     then s\<lparr>heap := (heap s)(p \<mapsto> P\<lparr>delayUntil := delayUntil C\<rparr>, c \<mapsto> C\<lparr>delayUntil := 0\<rparr>)\<rparr>
     else s)"
  using assms by (simp add: transitionState_def modify_Some deref_Some)

lemma transition_finished:
  assumes "currentState s = p" "p \<noteq> 0" "heap s p = Some P" "childState P = c" "c \<noteq> 0"
    "c \<noteq> p" "heap s c = Some C" "currentStep C = stepSuccess \<or> currentStep C = stepFailure"
  shows "transitionState s = Inr (True,
     s\<lparr>heap := (heap s)
         (p \<mapsto> P\<lparr>delayUntil := (if delayUntil C \<noteq> 0 then delayUntil C else delayUntil P),
                 currentStep := (if currentStep C = stepFailure then stepFailure else nextStep P),
                 nextStep := (if currentStep C = stepFailure then nextStep P else 0),
                 childState := 0\<rparr>,
          c := None)\<rparr>)"
  using assms
  by (auto simp add: transitionState_def modify_Some deref_Some delete_Some fun_upd_twist
      stepSuccess_def stepFailure_def)

lemma suspend_closed:
  assumes "currentState s = c" "c \<noteq> 0" "heap s c = Some C"
    and "C' = (if n \<noteq> 0 \<and> childState C = 0 then C\<lparr>currentStep := n, nextStep := 0\<rparr>
              else C\<lparr>nextStep := n\<rparr>)"
    and "a = (if parentState C \<noteq> 0 then parentState C else c)"
    and "((heap s)(c \<mapsto> C')) a = Some G"
    and "G' = (if d > 0 then G\<lparr>delayUntil := now + d\<rparr> else G)"
  shows "popState (currentStep C) n s = Inr (s\<lparr>heap := (heap s)(c \<mapsto> C'), currentState := a\<rparr>) \<and>
    suspend n d now s =
     andThen (transitionState (s\<lparr>heap := (heap s)(c \<mapsto> C', a \<mapsto> G'), currentState := a\<rparr>))
       (\<lambda>(t, s3). andThen (deref s3 (currentState s3))
          (\<lambda>cur3. Inr (currentStep cur3 \<noteq> stepFailure, s3)))"
proof -
  have C': "popped (currentStep C) n C = C'"
    using assms(4) by (simp add: popped_def)
  have pop: "popState (currentStep C) n s = Inr (s\<lparr>heap := (heap s)(c \<mapsto> C'), currentState := a\<rparr>)"
    using popState_closed [OF assms(1-3), of "currentStep C" n] C' assms(5) by simp
  have a0: "a \<noteq> 0" using assms(2,5) by simp
  show ?thesis
  proof (cases "d > 0")
    case True
    have "modify a (\<lambda>f. f\<lparr>delayUntil := now + d\<rparr>)
            (s\<lparr>heap := (heap s)(c \<mapsto> C'), currentState := a\<rparr>) =
          Inr (s\<lparr>heap := (heap s)(c \<mapsto> C', a \<mapsto> G'), currentState := a\<rparr>)"
      using assms(6,7) a0 True by (simp add: modify_def deref_def)
    then show ?thesis
      using pop assms(1-3) True
      by (simp add: suspend_def deref_Some)
  next
    case False
    then have "G' = G" using assms(7) by simp
    then have "(heap s)(c \<mapsto> C', a \<mapsto> G') = (heap s)(c \<mapsto> C')"
      using assms(6) by (simp add: fun_upd_idem)
    then show ?thesis
      using pop assms(1-3) False
      by (simp add: suspend_def deref_Some)
  qed
qed

lemma transition_closed:
  assumes "currentState s = p" "p \<noteq> 0" "heap s p = Some P" "childState P = c" "c \<noteq> 0"
    "c \<noteq> p" "heap s c = Some C"
  shows "transitionState s =
    Inr (finished C, s\<lparr>heap := (heap s)(c := consumed C, p \<mapsto> observed C P)\<rparr>)"
proof (cases "finished C")
  case True
  then show ?thesis
    using transition_finished [OF assms(1-7)] assms(6)
    by (auto simp add: finished_def observed_def consumed_def fun_upd_twist stepSuccess_def stepFailure_def)
next
  case False
  show ?thesis
  proof (cases "delayUntil C = 0")
    case True
    have "(heap s)(c \<mapsto> C, p \<mapsto> P) = heap s"
      using assms(3,7) by (simp add: fun_upd_idem)
    then show ?thesis
      using transition_unfinished [OF assms(1-7)] False True
      by (simp add: finished_def observed_def consumed_def)
  next
    case nz: False
    then show ?thesis
      using transition_unfinished [OF assms(1-7)] False assms(6)
      by (simp add: finished_def observed_def consumed_def fun_upd_twist)
  qed
qed

lemma pop_nonroot:
  assumes "currentState s = c" "c \<noteq> 0" "heap s c = Some C" "parentState C = p" "p \<noteq> 0"
  shows "popState cs ns s = Inr (s\<lparr>heap := (heap s)(c \<mapsto> popped cs ns C), currentState := p\<rparr>)"
  using popState_closed [OF assms(1-3), of cs ns] assms(4,5) by simp

lemma end_call_nonroot:
  assumes "currentState s = c" "c \<noteq> 0" "heap s c = Some C" "parentState C = p" "p \<noteq> 0"
    "p \<noteq> c" "heap s p = Some P" "childState P = c"
  shows "end_call status s =
    Inr (status, s\<lparr>heap := (heap s)(c := None,
             p \<mapsto> observed (popped (if status then stepSuccess else stepFailure) 0 C) P),
           currentState := p\<rparr>)"
proof -
  let ?C' = "popped (if status then stepSuccess else stepFailure) 0 C"
  let ?s1 = "s\<lparr>heap := (heap s)(c \<mapsto> ?C'), currentState := p\<rparr>"
  have fin: "finished ?C'" by (simp add: popped_def finished_def)
  have "transitionState ?s1 =
      Inr (finished ?C', ?s1\<lparr>heap := (heap ?s1)(c := consumed ?C', p \<mapsto> observed ?C' P)\<rparr>)"
    by (rule transition_closed [where P = P and C = "?C'"]) (use assms in simp_all)
  then have "transitionState ?s1 =
      Inr (True, s\<lparr>heap := (heap s)(c := None, p \<mapsto> observed ?C' P), currentState := p\<rparr>)"
    using fin by (simp add: consumed_def)
  moreover have "popState (if status then stepSuccess else stepFailure) 0 s = Inr ?s1"
    by (rule pop_nonroot [OF assms(1-5)])
  ultimately show ?thesis
    by (cases status) (simp_all add: end_call_def)
qed

lemma suspend_nonroot:
  assumes "currentState s = c" "c \<noteq> 0" "heap s c = Some C" "parentState C = p" "p \<noteq> 0"
    "p \<noteq> c" "heap s p = Some P" "childState P = c"
    and "C' = popped (currentStep C) n C"
    and "P' = observed C' (if d > 0 then P\<lparr>delayUntil := now + d\<rparr> else P)"
  shows "suspend n d now s =
    Inr (currentStep P' \<noteq> stepFailure,
         s\<lparr>heap := (heap s)(c := consumed C', p \<mapsto> P'), currentState := p\<rparr>)"
proof -
  let ?Pd = "if d > 0 then P\<lparr>delayUntil := now + d\<rparr> else P"
  let ?s2 = "s\<lparr>heap := (heap s)(c \<mapsto> C', p \<mapsto> ?Pd), currentState := p\<rparr>"
  have C': "C' = (if n \<noteq> 0 \<and> childState C = 0 then C\<lparr>currentStep := n, nextStep := 0\<rparr>
              else C\<lparr>nextStep := n\<rparr>)"
    using assms(9) by (simp add: popped_def)
  have a: "p = (if parentState C \<noteq> 0 then parentState C else c)"
    using assms(4,5) by simp
  have G: "((heap s)(c \<mapsto> C')) p = Some P"
    using assms(6,7) by simp
  have step: "suspend n d now s =
     andThen (transitionState ?s2)
       (\<lambda>(t, s3). andThen (deref s3 (currentState s3))
          (\<lambda>cur3. Inr (currentStep cur3 \<noteq> stepFailure, s3)))"
    using suspend_closed [OF assms(1-3) C' a G refl] by simp
  have "transitionState ?s2 =
      Inr (finished C', ?s2\<lparr>heap := (heap ?s2)(c := consumed C', p \<mapsto> observed C' ?Pd)\<rparr>)"
    by (rule transition_closed [where P = "?Pd" and C = C']) (use assms in simp_all)
  then have "transitionState ?s2 =
      Inr (finished C', s\<lparr>heap := (heap s)(c := consumed C', p \<mapsto> P'), currentState := p\<rparr>)"
    using assms(10) by simp
  then show ?thesis
    using step assms(5) by (simp add: deref_def)
qed


lemma ascend_nonroot:
  assumes "currentState s = c" "c \<noteq> 0" "heap s c = Some C" "parentState C = p" "p \<noteq> 0"
    "p \<noteq> c" "heap s p = Some P" "childState P = c"
  shows "\<exists>b. ascend x s =
    Inr (b, s\<lparr>heap := (heap s)(c := consumed (poppedBy x C),
                               p \<mapsto> observed (poppedBy x C) (delayedBy x P)),
              currentState := p\<rparr>)"
proof (cases x)
  case (Suspend n d now)
  then show ?thesis
    using suspend_nonroot [OF assms refl refl, of n d now] by simp
next
  case (SuspendSame now)
  then show ?thesis
    using suspend_nonroot [OF assms refl refl, of "currentStep C" 0 now] assms(1-3)
    by (simp add: suspend0_def deref_Some)
next
  case (End status)
  have "finished (popped (if status then stepSuccess else stepFailure) 0 C)"
    by (simp add: popped_def finished_def)
  then show ?thesis
    using End end_call_nonroot [OF assms, of status] by (simp add: consumed_def)
qed

lemma popped_keeps [simp]:
  "parentState (popped cs ns f) = parentState f" "childState (popped cs ns f) = childState f"
  "delayUntil (popped cs ns f) = delayUntil f"
  by (simp_all add: popped_def)

lemma poppedBy_keeps [simp]:
  "parentState (poppedBy x f) = parentState f" "childState (poppedBy x f) = childState f"
  "delayUntil (poppedBy x f) = delayUntil f"
  by (cases x; simp)+

lemma observed_parent [simp]: "parentState (observed ch f) = parentState f"
  by (simp add: observed_def Let_def)

lemma delayedBy_parent [simp]: "parentState (delayedBy x f) = parentState f"
  by (cases x) simp_all

lemma observed_delay: "delayUntil ch \<noteq> 0 \<Longrightarrow> delayUntil (observed ch f) = delayUntil ch"
  by (simp add: observed_def Let_def)

lemma consumed_zeroDelay: "zeroDelay (h(c := consumed ch)) c"
  by (simp add: zeroDelay_def consumed_def)

lemma upPath_untouched:
  assumes "upPath h g gs" "c \<notin> set (g # gs)" "p \<notin> set (g # gs)"
  shows "upPath (h(c := x, p := y)) g gs"
  using assms by (induction gs arbitrary: g) auto

lemma upPath_parent_step:
  assumes "upPath h c (p # ps)" "distinct (c # p # ps)" "h p = Some P"
    "parentState P' = parentState P"
  shows "upPath (h(c := x, p \<mapsto> P')) p ps"
proof (cases ps)
  case Nil
  with assms show ?thesis by (auto split: option.splits)
next
  case (Cons g gs)
  with assms have "upPath h g gs" "c \<notin> set (g # gs)" "p \<notin> set (g # gs)"
    by auto
  from upPath_untouched [OF this] have "upPath (h(c := x, p \<mapsto> P')) g gs" .
  with assms Cons show ?thesis by (auto split: option.splits)
qed

lemma upPath_local:
  assumes "upPath h c (p # ps)"
  shows "c \<noteq> 0 \<and> p \<noteq> 0 \<and>
    (\<exists>C P. h c = Some C \<and> parentState C = p \<and> h p = Some P \<and> childState P = c)"
  using assms by (cases ps) (auto split: option.splits)


section \<open>The example states are reachable\<close>

lemma reach_exA: "begin_call 1 ''A'' 1 empty_engine = Inr (1, exA)"
  by (simp add: begin_call_def createState_def empty_engine_def exA_def returnStep_def deref_def)

lemma reach_exAB2: "begin_call 2 ''B'' 1 exA = Inr (1, exAB2)"
  by (simp add: begin_call_def createState_def exAB2_def exA_def returnStep_def deref_def
      newChild_def modify_def fun_upd_twist)

lemma reach_exABC3: "begin_call 3 ''C'' 1 exAB2 = Inr (1, exABC3)"
  by (simp add: begin_call_def createState_def exAB2_def exABC3_def returnStep_def deref_def
      newChild_def modify_def fun_upd_twist)

lemma reach_exAfail: "end_call False exAB2 = Inr (False, exAfail)"
  by (simp add: end_call_def popState_def modify_def deref_def exAB2_def transitionState_def
      delete_def exAfail_def stepFailure_def stepSuccess_def newFrame_def fun_upd_twist)

lemma reach_exABC2: "suspend 2 0 0 exABC3 = Inr (True, exABC2)"
  by (simp add: suspend_def popState_def modify_def deref_def transitionState_def
      exABC3_def exABC2_def stepFailure_def stepSuccess_def newFrame_def fun_upd_twist)

lemma reach_exABC3': "begins [0, 0] ''B'' 1 exABC1 = Inr ([1, 1], exABC1\<lparr>currentState := 2\<rparr>) \<and>
  begin_call 0 ''C'' 1 (exABC1\<lparr>currentState := 2\<rparr>) = Inr (2, exABC3')"
  by (simp add: begin_call_def returnStep_def deref_def exABC1_def exABC3'_def)

lemma reach_exAB1: "suspend 2 0 0 exAB2 = Inr (True, exAB1)"
  by (simp add: suspend_def popState_def modify_def deref_def transitionState_def
      exAB2_def exAB1_def stepFailure_def stepSuccess_def newFrame_def fun_upd_twist)

lemma reach_exDelay3:
  "andThen (begin_call 4 ''D'' 1 exABC3) (\<lambda>(r, s). suspend 2 500 1000 s) = Inr (True, exDelay3)"
  by (simp add: begin_call_def newChild_def createState_def returnStep_def
      suspend_def popState_def modify_def deref_def transitionState_def
      exABC3_def exDelay3_def stepFailure_def stepSuccess_def newFrame_def fun_upd_twist)

section \<open>getStatus\<close>

lemma destroy_current: "destroy s = Inr s' \<Longrightarrow> currentState s' = 0"
  by (auto simp add: destroy_def andThen_def split: if_splits sum.splits)

text \<open>
  C9. With no current frame, as in a freshly constructed engine and after a successful
  \<open>init\<close>, \<open>destroy\<close> or destructor call, \<open>getStatus\<close> returns 0, which is none of
  \<open>stepSuccess\<close>, \<open>stepFailure\<close> and the application step constants; with a current frame
  it returns that frame's \<open>currentStep\<close>. In both cases the engine state is returned as it
  was.
\<close>

theorem getStatus_spec:
  "(currentState s = 0 \<longrightarrow>
      getStatus s = Inr (0, s) \<and> 0 \<noteq> stepSuccess \<and> 0 \<noteq> stepFailure \<and> 0 \<notin> set appSteps) \<and>
   (currentState s \<noteq> 0 \<longrightarrow> heap s (currentState s) = Some f \<longrightarrow>
      getStatus s = Inr (currentStep f, s)) \<and>
   getStatus empty_engine = Inr (0, empty_engine) \<and>
   (init s = Inr s' \<or> destroy s = Inr s' \<or> destructor s = Inr s' \<longrightarrow>
      getStatus s' = Inr (0, s'))"
proof -
  have "getStatus s' = Inr (0, s')"
    if "init s = Inr s' \<or> destroy s = Inr s' \<or> destructor s = Inr s'"
    using that destroy_current [of s s'] by (auto simp add: init_def destructor_def getStatus_def)
  then show ?thesis
    by (simp add: getStatus_def deref_Some stepSuccess_def stepFailure_def appSteps_def
        stepStart_def stepListen_def stepSend_def stepReceive_def stepPower_def
        stepTimeout_def stepEnd_def stepTest1_def stepTest2_def stepTest3_def stepTest4_def
        empty_engine_def)
qed

theorem getStatus_spec_witness:
  "getStatus empty_engine = Inr (0, empty_engine) \<and> getStatus exAB1 = Inr (1, exAB1) \<and>
   init exAB2 = Inr exLeak \<and> getStatus exLeak = Inr (0, exLeak)"
proof -
  have i: "init exAB2 = Inr exLeak"
    by (simp add: init_def destroy_def deref_def delete_def modify_def exAB2_def exLeak_def)
  from getStatus_spec [of empty_engine _ empty_engine]
    getStatus_spec [of exAB1 "(newFrame ''A'' 1 0)\<lparr>childState := 2\<rparr>" exAB1]
    getStatus_spec [of exAB2 _ exLeak] i
  show ?thesis
    by (simp add: empty_engine_def exAB1_def)
qed

section \<open>begin\<close>

lemma begin_call_post:
  assumes "begin_call a fn fs s = Inr (r, s1)"
  shows "currentState s1 \<noteq> 0 \<and>
    (\<exists>f. heap s1 (currentState s1) = Some f \<and> functionName f = fn \<and> currentStep f = r)"
  using assms
  unfolding begin_call_def returnStep_def newChild_def createState_def modify_def delete_def
    deref_def andThen_def newFrame_def
  by (auto split: if_splits sum.splits option.splits prod.splits)

lemma begin_call_resume:
  assumes "currentState s \<noteq> 0" "heap s (currentState s) = Some f" "functionName f = fn"
  shows "begin_call a fn fs s = Inr (currentStep f, s)"
  using assms by (simp add: begin_call_def returnStep_def deref_Some)

lemma begins_resume:
  assumes "currentState s \<noteq> 0" "heap s (currentState s) = Some f" "functionName f = fn"
  shows "begins as fn fs s = Inr (replicate (length as) (currentStep f), s)"
  using assms by (induction as) (simp_all add: begin_call_resume)

text \<open>
  C1. After one successful \<open>begin\<close> for a function name, any number of further \<open>begin\<close>
  calls with the same name and first step, with nothing in between, all succeed, all
  return the step the first one returned, which is the step stored in the current frame,
  and leave the engine state exactly as the first call left it.
\<close>

theorem begin_resume_idempotent:
  assumes "begin_call a fn fs s = Inr (r, s1)"
  shows "begins as fn fs s1 = Inr (replicate (length as) r, s1) \<and>
    (\<exists>f. heap s1 (currentState s1) = Some f \<and> currentStep f = r)"
proof -
  from begin_call_post [OF assms] obtain f where
    f: "currentState s1 \<noteq> 0" "heap s1 (currentState s1) = Some f" "functionName f = fn"
      "currentStep f = r"
    by blast
  from begins_resume [OF f(1-3)] f(2,4) show ?thesis by auto
qed

theorem begin_resume_idempotent_witness:
  "begin_call 9 ''B'' 1 exAB1 = Inr (2, exAB1\<lparr>currentState := 2\<rparr>) \<and>
   begins [7, 8] ''B'' 1 (exAB1\<lparr>currentState := 2\<rparr>) = Inr ([2, 2], exAB1\<lparr>currentState := 2\<rparr>)"
proof -
  have h: "begin_call 9 ''B'' 1 exAB1 = Inr (2, exAB1\<lparr>currentState := 2\<rparr>)"
    by (simp add: begin_call_def returnStep_def deref_def exAB1_def)
  from begin_resume_idempotent [OF h, of "[7, 8]"] h show ?thesis by simp
qed

lemma begin_nested_closed:
  assumes "currentState s = c" "c \<noteq> 0" "heap s c = Some C" "functionName C \<noteq> fn"
  shows "(childState C \<noteq> 0 \<longrightarrow> heap s (childState C) = Some K \<longrightarrow> functionName K = fn \<longrightarrow>
            begin_call a fn fs s = Inr (currentStep K, s\<lparr>currentState := childState C\<rparr>)) \<and>
         (childState C = 0 \<longrightarrow> a \<noteq> 0 \<longrightarrow> heap s a = None \<longrightarrow>
            begin_call a fn fs s =
              Inr (fs, s\<lparr>heap := (heap s)(a \<mapsto> newFrame fn fs c, c \<mapsto> C\<lparr>childState := a\<rparr>),
                         currentState := a\<rparr>)) \<and>
         (childState C \<noteq> 0 \<longrightarrow> childState C \<noteq> c \<longrightarrow> heap s (childState C) = Some K \<longrightarrow>
          functionName K \<noteq> fn \<longrightarrow> a \<noteq> 0 \<longrightarrow> heap s a = None \<or> a = childState C \<longrightarrow>
            begin_call a fn fs s =
              Inr (fs, s\<lparr>heap := (heap s)(childState C := None, a \<mapsto> newFrame fn fs c,
                                            c \<mapsto> C\<lparr>childState := a\<rparr>),
                         currentState := a\<rparr>))"
proof (intro conjI impI)
  assume "childState C \<noteq> 0" "heap s (childState C) = Some K" "functionName K = fn"
  with assms show "begin_call a fn fs s = Inr (currentStep K, s\<lparr>currentState := childState C\<rparr>)"
    by (simp add: begin_call_def returnStep_def deref_Some)
next
  assume h: "childState C = 0" "a \<noteq> 0" "heap s a = None"
  with assms have "a \<noteq> c" by auto
  with h assms show "begin_call a fn fs s =
      Inr (fs, s\<lparr>heap := (heap s)(a \<mapsto> newFrame fn fs c, c \<mapsto> C\<lparr>childState := a\<rparr>),
                 currentState := a\<rparr>)"
    by (simp add: begin_call_def returnStep_def deref_def newChild_def createState_def
        modify_def)
next
  assume h: "childState C \<noteq> 0" "childState C \<noteq> c" "heap s (childState C) = Some K"
    "functionName K \<noteq> fn" "a \<noteq> 0" "heap s a = None \<or> a = childState C"
  with assms have "a \<noteq> c" by auto
  with h assms show "begin_call a fn fs s =
      Inr (fs, s\<lparr>heap := (heap s)(childState C := None, a \<mapsto> newFrame fn fs c,
                                    c \<mapsto> C\<lparr>childState := a\<rparr>),
                 currentState := a\<rparr>)"
    by (auto simp add: begin_call_def returnStep_def deref_def newChild_def createState_def
        modify_def delete_def)
qed

text \<open>
  C4. \<open>begin\<close> with a name other than the current frame's. If the current frame has a
  child of that name, the child becomes current and its stored step is returned, whatever
  \<open>firstStep\<close> is. If it has no child, a new frame is allocated whose name is the
  argument, whose \<open>parentState\<close> is the address of the current frame, whose
  \<open>currentStep\<close> is \<open>firstStep\<close> and whose other fields are zero or empty; its address is
  stored in the current frame's \<open>childState\<close> and in \<open>currentState\<close>, and \<open>firstStep\<close> is
  returned. If it has a child of another name, that child is freed first and then the
  same happens. The address \<open>a\<close> of the new frame is the allocator's choice: not null,
  and not allocated (it may be the address just freed). Every field of the new frame is
  written out, so that the statement does not depend on how the model builds it.
\<close>

theorem begin_nested:
  assumes "currentState s = c" "c \<noteq> 0" "heap s c = Some C" "functionName C \<noteq> fn"
    and "N = \<lparr>functionName = fn, parentState = c, childState = 0, currentStep = fs,
              nextStep = 0, delayUntil = 0, int1 = 0, uint1 = 0, ulong1 = 0, string1 = []\<rparr>"
  shows "(childState C \<noteq> 0 \<longrightarrow> heap s (childState C) = Some K \<longrightarrow> functionName K = fn \<longrightarrow>
            begin_call a fn fs s = Inr (currentStep K, s\<lparr>currentState := childState C\<rparr>)) \<and>
         (childState C = 0 \<longrightarrow> a \<noteq> 0 \<longrightarrow> heap s a = None \<longrightarrow>
            begin_call a fn fs s =
              Inr (fs, s\<lparr>heap := (heap s)(a \<mapsto> N, c \<mapsto> C\<lparr>childState := a\<rparr>),
                         currentState := a\<rparr>)) \<and>
         (childState C \<noteq> 0 \<longrightarrow> childState C \<noteq> c \<longrightarrow> heap s (childState C) = Some K \<longrightarrow>
          functionName K \<noteq> fn \<longrightarrow> a \<noteq> 0 \<longrightarrow> heap s a = None \<or> a = childState C \<longrightarrow>
            begin_call a fn fs s =
              Inr (fs, s\<lparr>heap := (heap s)(childState C := None, a \<mapsto> N,
                                            c \<mapsto> C\<lparr>childState := a\<rparr>),
                         currentState := a\<rparr>))"
  using begin_nested_closed [OF assms(1-4), of K a fs] assms(5)
  by (simp add: newFrame_def)

theorem begin_nested_witness:
  "begin_call 9 ''B'' 1 exAB1 = Inr (2, exAB1\<lparr>currentState := 2\<rparr>) \<and>
   begin_call 2 ''B'' 1 exA =
     Inr (1, \<lparr>heap = (\<lambda>_. None)
                (1 \<mapsto> \<lparr>functionName = ''A'', parentState = 0, childState = 2, currentStep = 1,
                       nextStep = 0, delayUntil = 0, int1 = 0, uint1 = 0, ulong1 = 0,
                       string1 = []\<rparr>,
                 2 \<mapsto> \<lparr>functionName = ''B'', parentState = 1, childState = 0, currentStep = 1,
                       nextStep = 0, delayUntil = 0, int1 = 0, uint1 = 0, ulong1 = 0,
                       string1 = []\<rparr>),
              currentState = 2\<rparr>) \<and>
   begin_call 3 ''C'' 5 exAB1 =
     Inr (5, \<lparr>heap = (\<lambda>_. None)
                (1 \<mapsto> \<lparr>functionName = ''A'', parentState = 0, childState = 3, currentStep = 1,
                       nextStep = 0, delayUntil = 0, int1 = 0, uint1 = 0, ulong1 = 0,
                       string1 = []\<rparr>,
                 3 \<mapsto> \<lparr>functionName = ''C'', parentState = 1, childState = 0, currentStep = 5,
                       nextStep = 0, delayUntil = 0, int1 = 0, uint1 = 0, ulong1 = 0,
                       string1 = []\<rparr>),
              currentState = 3\<rparr>)"
  using
    begin_nested [of exAB1 1 "(newFrame ''A'' 1 0)\<lparr>childState := 2\<rparr>" "''B''" _ 1
      "newFrame ''B'' 2 1" 9, OF _ _ _ _ refl]
    begin_nested [of exA 1 "newFrame ''A'' 1 0" "''B''" _ 1 "newFrame ''B'' 2 1" 2,
      OF _ _ _ _ refl]
    begin_nested [of exAB1 1 "(newFrame ''A'' 1 0)\<lparr>childState := 2\<rparr>" "''C''" _ 5
      "newFrame ''B'' 2 1" 3, OF _ _ _ _ refl]
  by (simp add: exAB1_def exA_def newFrame_def fun_upd_twist)

section \<open>suspend\<close>

text \<open>
  C5, as stated, fails: \<open>popState\<close> applies the next step at once only when it is nonzero.
  In \<open>exA\<close> the current frame has no child and is at step 1; \<open>suspend(0)\<close> leaves it at
  step 1 (the state is unchanged), it does not set the step to 0.
\<close>

theorem suspend_zero_counterexample:
  "heap exA (currentState exA) = Some (newFrame ''A'' 1 0) \<and>
   childState (newFrame ''A'' 1 0) = 0 \<and> currentStep (newFrame ''A'' 1 0) = 1 \<and>
   suspend 0 0 0 exA = Inr (True, exA)"
  by (simp add: suspend_def popState_def modify_def deref_def transitionState_def
      exA_def stepFailure_def newFrame_def)

text \<open>
  C5, amended. \<open>suspend(n, d)\<close> on the current frame \<open>C\<close> at address \<open>c\<close>: if \<open>C\<close> has no
  child and \<open>n\<close> is not 0, its step becomes \<open>n\<close> and its \<open>nextStep\<close> 0; otherwise its step
  stays and \<open>n\<close> is stored in \<open>nextStep\<close>. The current pointer moves to the parent, or stays
  at \<open>c\<close> when there is none. If \<open>d > 0\<close> the frame now current gets
  \<open>delayUntil = now + d\<close> (modulo \<open>2^32\<close>). The transition check runs on the state so
  obtained, and the result of \<open>suspend\<close> is read off the state the check returns.
\<close>

theorem suspend_steps:
  assumes "currentState s = c" "c \<noteq> 0" "heap s c = Some C"
    and "C' = (if n \<noteq> 0 \<and> childState C = 0 then C\<lparr>currentStep := n, nextStep := 0\<rparr>
              else C\<lparr>nextStep := n\<rparr>)"
    and "a = (if parentState C \<noteq> 0 then parentState C else c)"
    and "((heap s)(c \<mapsto> C')) a = Some G"
    and "G' = (if d > 0 then G\<lparr>delayUntil := now + d\<rparr> else G)"
  shows "popState (currentStep C) n s = Inr (s\<lparr>heap := (heap s)(c \<mapsto> C'), currentState := a\<rparr>) \<and>
    suspend n d now s =
     andThen (transitionState (s\<lparr>heap := (heap s)(c \<mapsto> C', a \<mapsto> G'), currentState := a\<rparr>))
       (\<lambda>(t, s3). andThen (deref s3 (currentState s3))
          (\<lambda>cur3. Inr (currentStep cur3 \<noteq> stepFailure, s3)))"
  using assms by (rule suspend_closed)

theorem suspend_steps_witness:
  "popState 1 2 exAB2 =
     Inr (exAB2\<lparr>heap := (heap exAB2)(2 \<mapsto> newFrame ''B'' 2 1), currentState := 1\<rparr>) \<and>
   suspend 2 500 1000 exAB2 = Inr (True, exAB1d)"
  using suspend_steps [of exAB2 2 "newFrame ''B'' 1 1" "newFrame ''B'' 2 1" 2 1
      "(newFrame ''A'' 1 0)\<lparr>childState := 2\<rparr>"
      "(newFrame ''A'' 1 0)\<lparr>childState := 2, delayUntil := 1500\<rparr>" 500 1000]
  by (simp add: exAB2_def exAB1d_def newFrame_def transitionState_def deref_def
      stepSuccess_def stepFailure_def fun_upd_twist)

text \<open>
  C7, as stated, fails. In \<open>exAfail\<close> the root frame is already at \<open>stepFailure\<close> and has
  no child. \<open>suspend()\<close> returns \<open>false\<close> there, although the transition check it runs
  finds no child, reports no transition and changes nothing.
\<close>

theorem suspend_false_counterexample:
  "popState stepFailure stepFailure exAfail = Inr exAfail \<and>
   transitionState exAfail = Inr (False, exAfail) \<and>
   suspend0 0 exAfail = Inr (False, exAfail)"
  by (simp add: suspend0_def suspend_def popState_def modify_def deref_def transitionState_def
      exAfail_def stepFailure_def newFrame_def)

lemma transitionState_current:
  "transitionState s = Inr (t, s') \<Longrightarrow> currentState s' = currentState s"
  by (auto simp add: transitionState_def modify_def deref_def delete_def andThen_def
      split: option.splits if_splits sum.splits)

text \<open>
  C7, amended. Let \<open>s2\<close> be the state in which \<open>suspend(n, d)\<close> runs its transition check:
  the current frame popped, the frame \<open>a\<close> it ascends to (the parent, or the frame itself
  at the root) made current, and the delay written there. Then \<open>suspend\<close> returns \<open>b\<close> and
  the state \<open>s'\<close> exactly when the transition check on \<open>s2\<close> returns \<open>s'\<close>, the frame \<open>a\<close>
  is still current in \<open>s'\<close>, and \<open>b\<close> is false if and only if the step of the frame at \<open>a\<close>
  in \<open>s'\<close> is \<open>stepFailure\<close>, whether the check has set it or it was there before.
  \<open>suspend()\<close> is the same with \<open>n\<close> the current step and \<open>d = 0\<close>.
\<close>

theorem suspend_result:
  assumes "currentState s = c" "c \<noteq> 0" "heap s c = Some C"
    and "C' = (if n \<noteq> 0 \<and> childState C = 0 then C\<lparr>currentStep := n, nextStep := 0\<rparr>
              else C\<lparr>nextStep := n\<rparr>)"
    and "a = (if parentState C \<noteq> 0 then parentState C else c)"
    and "((heap s)(c \<mapsto> C')) a = Some G"
    and "G' = (if d > 0 then G\<lparr>delayUntil := now + d\<rparr> else G)"
    and "s2 = s\<lparr>heap := (heap s)(c \<mapsto> C', a \<mapsto> G'), currentState := a\<rparr>"
  shows "((suspend n d now s = Inr (b, s')) =
           (\<exists>t f. transitionState s2 = Inr (t, s') \<and> currentState s' = a \<and>
              heap s' a = Some f \<and> b = (currentStep f \<noteq> stepFailure))) \<and>
         (n = currentStep C \<and> d = 0 \<longrightarrow>
           (suspend0 now s = Inr (b, s')) =
           (\<exists>t f. transitionState s2 = Inr (t, s') \<and> currentState s' = a \<and>
              heap s' a = Some f \<and> b = (currentStep f \<noteq> stepFailure)))"
proof -
  have a0: "a \<noteq> 0" using assms(2,5) by simp
  have cur2: "currentState s2 = a" using assms(8) by simp
  have step: "suspend n d now s =
     andThen (transitionState s2)
       (\<lambda>(t, s3). andThen (deref s3 (currentState s3))
          (\<lambda>cur3. Inr (currentStep cur3 \<noteq> stepFailure, s3)))"
    using suspend_closed [OF assms(1-7)] assms(8) by simp
  have main: "(suspend n d now s = Inr (b, s')) =
           (\<exists>t f. transitionState s2 = Inr (t, s') \<and> currentState s' = a \<and>
              heap s' a = Some f \<and> b = (currentStep f \<noteq> stepFailure))"
  proof (cases "transitionState s2")
    case (Inl e)
    with step show ?thesis by simp
  next
    case (Inr r)
    obtain t s3 where r: "r = (t, s3)" by (cases r)
    from Inr r transitionState_current [of s2 t s3] cur2 have c3: "currentState s3 = a" by simp
    show ?thesis
      using step Inr r c3 a0
      by (auto simp add: deref_def split: option.splits)
  qed
  moreover have "suspend0 now s = suspend (currentStep C) 0 now s"
    using assms(1-3) by (simp add: suspend0_def deref_Some)
  ultimately show ?thesis by auto
qed

theorem suspend_result_witness:
  "suspend 7 0 0 exABC2 = Inr (True, exABC1) \<and>
   suspend0 0 exABfail2 = Inr (False, exAfail) \<and>
   suspend 0 0 0 exABfail2 = Inr (False, exAfail) \<and>
   suspend0 0 exAfail = Inr (False, exAfail)"
proof -
  let ?A = "(newFrame ''A'' 1 0)\<lparr>childState := 2\<rparr>"
  have 1: "suspend 7 0 0 exABC2 = Inr (True, exABC1)"
    using suspend_result [where s = exABC2 and c = 2 and C = "(newFrame ''B'' 1 1)\<lparr>childState := 3\<rparr>" and n = 7 and G = "?A"
        and d = 0 and now = 0 and b = True and s' = exABC1, OF _ _ _ refl refl _ refl refl]
    by (auto simp add: exABC2_def exABC1_def newFrame_def transitionState_def deref_def modify_def
        stepSuccess_def stepFailure_def fun_upd_twist)
  have 2: "suspend0 0 exABfail2 = Inr (False, exAfail) \<and>
      suspend stepFailure 0 0 exABfail2 = Inr (False, exAfail)"
    using suspend_result [where s = exABfail2 and c = 2 and C = "newFrame ''B'' stepFailure 1" and n = stepFailure and G = "?A"
        and d = 0 and now = 0 and b = False and s' = exAfail, OF _ _ _ refl refl _ refl refl]
    by (auto simp add: exABfail2_def exAfail_def newFrame_def transitionState_def deref_def
        modify_def delete_def stepSuccess_def stepFailure_def fun_upd_twist)
  have 3: "suspend 0 0 0 exABfail2 = Inr (False, exAfail)"
    using suspend_result [where s = exABfail2 and c = 2 and C = "newFrame ''B'' stepFailure 1" and n = 0 and G = "?A"
        and d = 0 and now = 0 and b = False and s' = exAfail, OF _ _ _ refl refl _ refl refl]
    by (auto simp add: exABfail2_def exAfail_def newFrame_def transitionState_def deref_def
        modify_def delete_def stepSuccess_def stepFailure_def fun_upd_twist)
  have 4: "suspend0 0 exAfail = Inr (False, exAfail)"
    using suspend_result [where s = exAfail and c = 1 and C = "newFrame ''A'' stepFailure 0" and n = stepFailure and G = "newFrame ''A'' stepFailure 0"
        and d = 0 and now = 0 and b = False and s' = exAfail, OF _ _ _ refl refl _ refl refl]
    by (auto simp add: exAfail_def newFrame_def transitionState_def deref_def
        stepSuccess_def stepFailure_def)
  from 1 2 3 4 show ?thesis by simp
qed

section \<open>end(true): the parent resumes at the step its suspend stored\<close>








section \<open>end(false): failure climbs the chain\<close>

lemma poppedBy_failure:
  assumes "keepsFailure x" "currentStep f = stepFailure" "childState f = 0"
  shows "currentStep (poppedBy x f) = stepFailure"
  using assms by (cases x) (auto simp add: popped_def stepFailure_def)

lemma poppedBy_failure_iff:
  assumes "currentStep f = stepFailure" "childState f = 0"
  shows "(currentStep (poppedBy x f) = stepFailure) = keepsFailure x"
  using assms by (cases x) (auto simp add: popped_def stepFailure_def stepSuccess_def)

lemma observed_failure:
  assumes "currentStep ch = stepFailure"
  shows "currentStep (observed ch f) = stepFailure" "childState (observed ch f) = 0"
  using assms by (simp_all add: observed_def finished_def Let_def)

lemma consumed_failure: "currentStep ch = stepFailure \<Longrightarrow> consumed ch = None"
  by (simp add: consumed_def finished_def)

lemma failure_climbs:
  assumes "upPath (heap s) c ups" "distinct (c # ups)" "currentState s = c"
    "heap s c = Some C" "currentStep C = stepFailure" "childState C = 0"
    "\<forall>x\<in>set xs. keepsFailure x" "length xs \<le> length ups"
    "Z \<inter> set (c # ups) = {}" "\<forall>a\<in>Z. heap s a = None"
  shows "\<exists>s' F. ascends xs s = Inr s' \<and> currentState s' = (c # ups) ! length xs \<and>
    currentState s' \<noteq> 0 \<and> heap s' (currentState s') = Some F \<and>
    currentStep F = stepFailure \<and>
    (\<forall>a \<in> Z \<union> set (take (length xs) (c # ups)). heap s' a = None)"
  using assms
proof (induction xs arbitrary: s c ups C Z)
  case Nil
  then have "c \<noteq> 0" by (cases ups) auto
  with Nil show ?case by simp
next
  case (Cons x xs)
  then obtain p ps where ups: "ups = p # ps" by (cases ups) auto
  from Cons.prems(1) ups have "upPath (heap s) c (p # ps)" by simp
  from upPath_local [OF this] obtain C0 P where
    loc: "c \<noteq> 0" "heap s c = Some C0" "parentState C0 = p" "p \<noteq> 0" "heap s p = Some P"
      "childState P = c"
    by blast
  with Cons.prems(4) have C0: "C0 = C" by simp
  have pc: "p \<noteq> c" using Cons.prems(2) ups by auto
  let ?C' = "poppedBy x C"
  let ?P' = "observed ?C' (delayedBy x P)"
  let ?h1 = "(heap s)(c := consumed ?C', p \<mapsto> ?P')"
  let ?s1 = "s\<lparr>heap := ?h1, currentState := p\<rparr>"
  from ascend_nonroot [OF Cons.prems(3) loc(1) Cons.prems(4) _ loc(4) pc loc(5,6), of x]
    loc(3) C0
  obtain b where step: "ascend x s = Inr (b, ?s1)" by auto
  have fail: "currentStep ?C' = stepFailure"
    using poppedBy_failure [of x C] Cons.prems(5,6,7) by simp
  have path1: "upPath (heap ?s1) p ps"
    using upPath_parent_step [of "heap s" c p ps P ?P' "consumed ?C'"] Cons.prems(1,2) ups loc(5)
    by simp
  have dist1: "distinct (p # ps)" using Cons.prems(2) ups by simp
  have len1: "length xs \<le> length ps" using Cons.prems(8) ups by simp
  have keeps1: "\<forall>x\<in>set xs. keepsFailure x" using Cons.prems(7) by simp
  let ?Z1 = "insert c Z"
  have disj1: "?Z1 \<inter> set (p # ps) = {}"
    using Cons.prems(2,9) ups by auto
  have none1: "\<forall>a\<in>?Z1. heap ?s1 a = None"
  proof
    fix a assume a: "a \<in> ?Z1"
    show "heap ?s1 a = None"
    proof (cases "a = c")
      case True
      then show ?thesis using pc consumed_failure [OF fail] by simp
    next
      case False
      with a have aZ: "a \<in> Z" by simp
      with Cons.prems(9) ups have "a \<noteq> p" by auto
      with False aZ Cons.prems(10) show ?thesis by simp
    qed
  qed
  from Cons.IH [of ?s1 p ps ?P' ?Z1, OF path1 dist1 _ _ observed_failure [OF fail] keeps1 len1
      disj1 none1]
  obtain s' F where r: "ascends xs ?s1 = Inr s'" "currentState s' = (p # ps) ! length xs"
    "currentState s' \<noteq> 0" "heap s' (currentState s') = Some F" "currentStep F = stepFailure"
    "\<forall>a \<in> ?Z1 \<union> set (take (length xs) (p # ps)). heap s' a = None"
    by auto
  from step r(1) have "ascends (x # xs) s = Inr s'" by simp
  moreover have "currentState s' = (c # ups) ! length (x # xs)" using r(2) ups by simp
  moreover have "\<forall>a \<in> Z \<union> set (take (length (x # xs)) (c # ups)). heap s' a = None"
    using r(6) ups by auto
  ultimately show ?case using r(3,4,5) by blast
qed


text \<open>
  C3 on the code. In \<open>exABC3\<close> the frame \<open>C\<close> calls \<open>end(false)\<close>: its parent \<open>B\<close> is
  marked failed and \<open>C\<close> is freed (\<open>exABfail2\<close>). \<open>B\<close> now has step \<open>stepFailure\<close> and no
  child link, so when it goes on with \<open>suspend(2)\<close>, \<open>popState\<close> applies the next step at
  once: \<open>B\<close> is at step 2 again, the transition check of the root \<open>A\<close> finds an unfinished
  child, \<open>A\<close> stays at step 1, \<open>suspend\<close> returns \<open>true\<close> and \<open>getStatus\<close> returns 1. The
  failure that \<open>transitionState\<close> marks on the parent, and that its comment says will
  propagate to the root, does not reach the root.
\<close>

theorem failure_lost:
  "end_call False exABC3 = Inr (False, exABfail2) \<and>
   map_option currentStep (heap exABfail2 2) = Some stepFailure \<and> heap exABfail2 3 = None \<and>
   suspend 2 0 0 exABfail2 = Inr (True, exAB1) \<and>
   map_option currentStep (heap exAB1 2) = Some 2 \<and>
   map_option currentStep (heap exAB1 1) = Some 1 \<and>
   getStatus exAB1 = Inr (1, exAB1)"
  by (simp add: exABC3_def exABfail2_def exAB1_def suspend_def end_call_def popState_def
      transitionState_def modify_def deref_def delete_def getStatus_def
      stepFailure_def stepSuccess_def newFrame_def fun_upd_twist)

text \<open>
  What does hold: while every frame gives up control with its step still at
  \<open>stepFailure\<close> (\<open>keepsFailure\<close>; for a failed frame without a child these are exactly
  the ascents that leave the step alone, \<open>poppedBy_failure_iff\<close>), each ancestor in turn
  becomes current with step \<open>stepFailure\<close>, whatever its \<open>nextStep\<close>, the frame below it
  is freed, and at the root \<open>getStatus\<close> returns \<open>stepFailure\<close>.
\<close>

lemma failure_climbs_to_root:
  assumes "upPath (heap s) c (p # ps)" "distinct (c # p # ps)" "currentState s = c"
    "\<forall>x\<in>set xs. keepsFailure x" "length xs \<le> length ps"
  shows "\<exists>s' F. ascends (End False # xs) s = Inr s' \<and>
    currentState s' = (p # ps) ! length xs \<and> heap s' (currentState s') = Some F \<and>
    currentStep F = stepFailure \<and>
    (\<forall>a \<in> set (c # take (length xs) (p # ps)). heap s' a = None) \<and>
    (length xs = length ps \<longrightarrow>
       currentState s' = last (p # ps) \<and> getStatus s' = Inr (stepFailure, s'))"
proof -
  from upPath_local [OF assms(1)] obtain C P where
    loc: "c \<noteq> 0" "heap s c = Some C" "parentState C = p" "p \<noteq> 0" "heap s p = Some P"
      "childState P = c"
    by blast
  have pc: "p \<noteq> c" using assms(2) by auto
  let ?C' = "poppedBy (End False) C"
  let ?P' = "observed ?C' (delayedBy (End False) P)"
  let ?s1 = "s\<lparr>heap := (heap s)(c := consumed ?C', p \<mapsto> ?P'), currentState := p\<rparr>"
  from ascend_nonroot [OF assms(3) loc(1,2,3,4) pc loc(5,6), of "End False"]
  obtain b where step: "ascend (End False) s = Inr (b, ?s1)" by auto
  have fail: "currentStep ?C' = stepFailure" by (simp add: popped_def)
  have path1: "upPath (heap ?s1) p ps"
    using upPath_parent_step [of "heap s" c p ps P ?P' "consumed ?C'"] assms(1,2) loc(5)
    by simp
  have dist1: "distinct (p # ps)" using assms(2) by simp
  have disj1: "{c} \<inter> set (p # ps) = {}" using assms(2) by auto
  have none1: "\<forall>a\<in>{c}. heap ?s1 a = None"
    using pc consumed_failure [OF fail] by simp
  from failure_climbs [of ?s1 p ps ?P' xs "{c}", OF path1 dist1 _ _ observed_failure [OF fail]
      assms(4,5) disj1 none1]
  obtain s' F where r: "ascends xs ?s1 = Inr s'" "currentState s' = (p # ps) ! length xs"
    "currentState s' \<noteq> 0" "heap s' (currentState s') = Some F" "currentStep F = stepFailure"
    "\<forall>a \<in> {c} \<union> set (take (length xs) (p # ps)). heap s' a = None"
    by auto
  from step r(1) have run: "ascends (End False # xs) s = Inr s'" by simp
  have status: "getStatus s' = Inr (stepFailure, s')"
    using r(3,4,5) by (simp add: getStatus_def deref_Some)
  have "length xs = length ps \<longrightarrow> (p # ps) ! length xs = last (p # ps)"
    by (auto simp add: last_conv_nth)
  with run r status show ?thesis by auto
qed



lemma failure_climbs_example:
  "ascends [End False, SuspendSame 0] exABC3 = Inr exAfail \<and>
   getStatus exAfail = Inr (stepFailure, exAfail)"
  by (simp add: exABC3_def exAfail_def suspend_def suspend0_def end_call_def popState_def
      transitionState_def modify_def deref_def delete_def getStatus_def
      stepFailure_def stepSuccess_def newFrame_def fun_upd_twist)

section \<open>Delays climb one level per ascent\<close>

lemma delay_climbs:
  assumes "upPath (heap s) c ups" "distinct (c # ups)" "currentState s = c"
    "heap s c = Some C" "delayUntil C = D" "D \<noteq> 0" "length xs \<le> length ups"
    "Z \<inter> set (c # ups) = {}" "\<forall>a\<in>Z. zeroDelay (heap s) a"
  shows "\<exists>s' F. ascends xs s = Inr s' \<and> currentState s' = (c # ups) ! length xs \<and>
    heap s' (currentState s') = Some F \<and> delayUntil F = D \<and>
    upPath (heap s') (currentState s') (drop (length xs) ups) \<and>
    (\<forall>a \<in> Z \<union> set (take (length xs) (c # ups)). zeroDelay (heap s') a)"
  using assms
proof (induction xs arbitrary: s c ups C Z)
  case Nil
  then show ?case by simp
next
  case (Cons x xs)
  then obtain p ps where ups: "ups = p # ps" by (cases ups) auto
  from Cons.prems(1) ups have "upPath (heap s) c (p # ps)" by simp
  from upPath_local [OF this] obtain C0 P where
    loc: "c \<noteq> 0" "heap s c = Some C0" "parentState C0 = p" "p \<noteq> 0" "heap s p = Some P"
      "childState P = c"
    by blast
  with Cons.prems(4) have C0: "C0 = C" by simp
  have pc: "p \<noteq> c" using Cons.prems(2) ups by auto
  let ?C' = "poppedBy x C"
  let ?P' = "observed ?C' (delayedBy x P)"
  let ?h1 = "(heap s)(c := consumed ?C', p \<mapsto> ?P')"
  let ?s1 = "s\<lparr>heap := ?h1, currentState := p\<rparr>"
  from ascend_nonroot [OF Cons.prems(3) loc(1) Cons.prems(4) _ loc(4) pc loc(5,6), of x]
    loc(3) C0
  obtain b where step: "ascend x s = Inr (b, ?s1)" by auto
  have path1: "upPath (heap ?s1) p ps"
    using upPath_parent_step [of "heap s" c p ps P ?P' "consumed ?C'"] Cons.prems(1,2) ups loc(5)
    by simp
  have dist1: "distinct (p # ps)" using Cons.prems(2) ups by simp
  have dP: "delayUntil ?P' = D"
    using observed_delay [of ?C' "delayedBy x P"] Cons.prems(5,6) by simp
  have len1: "length xs \<le> length ps" using Cons.prems(7) ups by simp
  let ?Z1 = "insert c Z"
  have disj1: "?Z1 \<inter> set (p # ps) = {}"
    using Cons.prems(2,8) ups by auto
  have zero1: "\<forall>a\<in>?Z1. zeroDelay (heap ?s1) a"
  proof
    fix a assume a: "a \<in> ?Z1"
    show "zeroDelay (heap ?s1) a"
    proof (cases "a = c")
      case True
      then show ?thesis using pc by (simp add: zeroDelay_def consumed_def)
    next
      case False
      with a have aZ: "a \<in> Z" by simp
      with Cons.prems(8) ups have "a \<noteq> p" by auto
      with False aZ Cons.prems(9) show ?thesis by (simp add: zeroDelay_def)
    qed
  qed
  from Cons.IH [of ?s1 p ps ?P' ?Z1, OF path1 dist1 _ _ dP Cons.prems(6) len1 disj1 zero1]
  obtain s' F where r: "ascends xs ?s1 = Inr s'" "currentState s' = (p # ps) ! length xs"
    "heap s' (currentState s') = Some F" "delayUntil F = D"
    "\<forall>a \<in> ?Z1 \<union> set (take (length xs) (p # ps)). zeroDelay (heap s') a"
    "upPath (heap s') (currentState s') (drop (length xs) ps)"
    by auto
  from step r(1) have "ascends (x # xs) s = Inr s'" by simp
  moreover have "currentState s' = (c # ups) ! length (x # xs)" using r(2) ups by simp
  moreover have "\<forall>a \<in> Z \<union> set (take (length (x # xs)) (c # ups)). zeroDelay (heap s') a"
    using r(5) ups by auto
  moreover have "upPath (heap s') (currentState s') (drop (length (x # xs)) ups)"
    using r(6) ups by simp
  ultimately show ?case using r(3,4) by blast
qed




section \<open>init and the destructor\<close>

text \<open>
  C8 on the code. In \<open>exAB2\<close> the root \<open>A\<close> has the child \<open>B\<close>, and \<open>B\<close> is current.
  \<open>init()\<close> frees \<open>B\<close> and clears \<open>currentState\<close>, so that \<open>getStatus\<close> returns 0, but the
  root frame at address 1 stays allocated: \<open>destroy\<close> frees the current frame and its
  child, not the rest of the chain. With the root current in \<open>exABC3\<close>, the grandchild at
  address 3 stays allocated in the same way.
\<close>

theorem destroy_leaks:
  "init exAB2 = Inr exLeak \<and> destructor exAB2 = Inr exLeak \<and>
   getStatus exLeak = Inr (0, exLeak) \<and>
   heap exLeak 1 = Some ((newFrame ''A'' 1 0)\<lparr>childState := 2\<rparr>) \<and>
   map_option functionName (heap (projr (destroy (exABC3\<lparr>currentState := 1\<rparr>))) 3) = Some ''C''"
  by (simp add: init_def destructor_def destroy_def deref_def delete_def modify_def getStatus_def
      exAB2_def exABC3_def exLeak_def)

section \<open>Reachable states are well-formed chains\<close>

lemma upPath_cong:
  assumes "upPath h c ups" "\<forall>a \<in> set (c # ups). map_option links (h' a) = map_option links (h a)"
  shows "upPath h' c ups"
  using assms
proof (induction ups arbitrary: c)
  case Nil
  then show ?case by (auto simp add: links_def split: option.splits)
next
  case (Cons p ps)
  then have "upPath h' p ps" by simp
  with Cons.prems show ?case by (auto simp add: links_def split: option.splits)
qed

lemma downPath_cong:
  assumes "downPath h c downs"
    "\<forall>a \<in> set (c # downs). map_option links (h' a) = map_option links (h a)"
  shows "downPath h' c downs"
  using assms
proof (induction downs arbitrary: c)
  case Nil
  then show ?case by (auto simp add: links_def split: option.splits)
next
  case (Cons k ks)
  then have "downPath h' k ks" by simp
  with Cons.prems show ?case by (auto simp add: links_def split: option.splits)
qed

lemma upPath_alloc: "upPath h c ups \<Longrightarrow> a \<in> set (c # ups) \<Longrightarrow> a \<noteq> 0 \<and> h a \<noteq> None"
  by (induction ups arbitrary: c) (auto split: option.splits)

lemma downPath_alloc: "downPath h c downs \<Longrightarrow> a \<in> set (c # downs) \<Longrightarrow> h a \<noteq> None"
  by (induction downs arbitrary: c) (auto split: option.splits)

lemma downPath_nonzero: "downPath h c downs \<Longrightarrow> a \<in> set downs \<Longrightarrow> a \<noteq> 0"
  by (induction downs arbitrary: c) (auto split: option.splits)


lemma upPath_head:
  assumes "upPath h c ups"
  shows "c \<noteq> 0 \<and> (\<exists>f. h c = Some f \<and> parentState f = (case ups of [] \<Rightarrow> 0 | p # ps \<Rightarrow> p))"
  using assms by (cases ups) (auto split: option.splits)

lemma upPath_tail: "upPath h c (p # ps) \<Longrightarrow> upPath h p ps \<and> p \<noteq> 0"
  by (cases ps) auto

text \<open>A write to a frame that keeps both links keeps the chain.\<close>

lemma paths_modify:
  assumes "upPath h c ups" "downPath h c downs" "h a = Some f" "links g = links f"
  shows "upPath (h(a \<mapsto> g)) c ups \<and> downPath (h(a \<mapsto> g)) c downs"
proof -
  have "map_option links ((h(a \<mapsto> g)) b) = map_option links (h b)" for b
    using assms(3,4) by simp
  then show ?thesis
    using upPath_cong [OF assms(1), of "h(a \<mapsto> g)"] downPath_cong [OF assms(2), of "h(a \<mapsto> g)"]
    by blast
qed

lemma popped_links [simp]: "links (popped cs ns f) = links f"
  by (simp add: links_def popped_def)

lemma upPath_frame:
  assumes "upPath h c ups" "\<forall>b\<in>set ups. h' b = h b" "h c = Some C" "h' c = Some C'"
    "parentState C' = parentState C"
  shows "upPath h' c ups"
proof (cases ups)
  case Nil
  with assms show ?thesis by simp
next
  case (Cons g gs)
  with assms(1) have "upPath h g gs" by simp
  moreover have "\<forall>a \<in> set (g # gs). map_option links (h' a) = map_option links (h a)"
    using assms(2) Cons by simp
  ultimately have "upPath h' g gs" by (rule upPath_cong)
  with assms Cons show ?thesis by (auto split: option.splits)
qed

lemma observed_links: "\<not> finished ch \<Longrightarrow> links (observed ch f) = links f"
  by (simp add: observed_def links_def Let_def)

lemma observed_finished:
  "finished ch \<Longrightarrow> childState (observed ch f) = 0 \<and> parentState (observed ch f) = parentState f"
  by (simp add: observed_def Let_def)

lemma chainInv_I:
  assumes "upPath (heap s) (currentState s) ups" "downPath (heap s) (currentState s) downs"
    "distinct (rev ups @ currentState s # downs)" "list_all (zeroDelay (heap s)) (drop q downs)"
  shows "chainInv q s"
  using assms by (auto simp add: chainInv_def)

lemma chainInv_wf: "chainInv q s \<Longrightarrow> wfEngine s"
  by (auto simp add: chainInv_def wfEngine_def)

lemma zeroDelay_kept:
  assumes "list_all (zeroDelay h) ks" "\<forall>a\<in>set ks. h' a = h a"
  shows "list_all (zeroDelay h') ks"
  using assms by (auto simp add: list_all_iff zeroDelay_def)

lemma modify_inv:
  assumes "chainInv q s" "currentState s \<noteq> 0" "\<And>f. links (g f) = links f"
  shows "\<exists>s'. modify (currentState s) g s = Inr s' \<and> chainInv q s' \<and>
    currentState s' = currentState s"
proof -
  from assms(1,2) obtain ups downs where
    w: "upPath (heap s) (currentState s) ups" "downPath (heap s) (currentState s) downs"
      "distinct (rev ups @ currentState s # downs)"
      "list_all (zeroDelay (heap s)) (drop q downs)"
    by (auto simp add: chainInv_def)
  from upPath_head [OF w(1)] obtain f where f: "heap s (currentState s) = Some f" by blast
  let ?s' = "s\<lparr>heap := (heap s)(currentState s \<mapsto> g f)\<rparr>"
  have "modify (currentState s) g s = Inr ?s'"
    using modify_Some [OF assms(2) f] .
  moreover have "list_all (zeroDelay (heap ?s')) (drop q downs)"
    by (rule zeroDelay_kept [OF w(4)]) (use w(3) in \<open>auto dest: in_set_dropD\<close>)
  then have "chainInv q ?s'"
    using paths_modify [OF w(1,2) f assms(3)] w(3)
    by (intro chainInv_I [where ups = ups and downs = downs]) simp_all
  ultimately show ?thesis by simp
qed

lemma popState_inv:
  assumes "chainInv 0 s"
  shows "\<exists>s'. popState cs ns s = Inr s' \<and> chainInv 1 s' \<and>
    (currentState s \<noteq> 0 \<longrightarrow> currentState s' \<noteq> 0)"
proof (cases "currentState s = 0")
  case True
  then show ?thesis by (simp add: popState_def chainInv_def)
next
  case False
  with assms obtain ups downs where
    w: "upPath (heap s) (currentState s) ups" "downPath (heap s) (currentState s) downs"
      "distinct (rev ups @ currentState s # downs)" "list_all (zeroDelay (heap s)) downs"
    by (auto simp add: chainInv_def)
  let ?c = "currentState s"
  from upPath_head [OF w(1)] obtain f where
    f: "heap s ?c = Some f" "parentState f = (case ups of [] \<Rightarrow> 0 | p # ps \<Rightarrow> p)"
    by blast
  let ?h = "(heap s)(?c \<mapsto> popped cs ns f)"
  have paths: "upPath ?h ?c ups" "downPath ?h ?c downs"
    using paths_modify [OF w(1,2) f(1) popped_links] by simp_all
  have z: "list_all (zeroDelay ?h) downs"
    by (rule zeroDelay_kept [OF w(4)]) (use w(3) in auto)
  show ?thesis
  proof (cases ups)
    case Nil
    with f(2) have "popState cs ns s = Inr (s\<lparr>heap := ?h, currentState := ?c\<rparr>)"
      using popState_closed [OF refl False f(1), of cs ns] by simp
    moreover have "list_all (zeroDelay ?h) (drop 1 downs)"
      using z by (auto simp add: list_all_iff dest: in_set_dropD)
    then have "chainInv 1 (s\<lparr>heap := ?h, currentState := ?c\<rparr>)"
      using paths w(3)
      by (intro chainInv_I [where ups = ups and downs = downs]) simp_all
    ultimately show ?thesis using False by simp
  next
    case (Cons p ps)
    with paths(1) have up: "upPath ?h p ps" "p \<noteq> 0"
      using upPath_tail [of ?h ?c p ps] by simp_all
    from Cons f(2) up(2) have "popState cs ns s = Inr (s\<lparr>heap := ?h, currentState := p\<rparr>)"
      using popState_closed [OF refl False f(1), of cs ns] by simp
    moreover have "downPath ?h p (?c # downs)"
      using paths Cons False by (auto split: option.splits)
    then have "chainInv 1 (s\<lparr>heap := ?h, currentState := p\<rparr>)"
      using up(1) w(3) Cons z
      by (intro chainInv_I [where ups = ps and downs = "?c # downs"]) simp_all
    ultimately show ?thesis using up(2) by simp
  qed
qed

lemma consumed_quiet:
  "\<not> finished ch \<Longrightarrow> \<exists>g. consumed ch = Some g \<and> links g = links ch \<and> delayUntil g = 0"
  by (simp add: consumed_def links_def)

lemma transition_inv:
  assumes "chainInv 1 s" "currentState s \<noteq> 0"
  shows "\<exists>t s'. transitionState s = Inr (t, s') \<and> chainInv 0 s' \<and>
    currentState s' = currentState s"
proof -
  let ?p = "currentState s"
  from assms obtain ups downs where
    w: "upPath (heap s) ?p ups" "downPath (heap s) ?p downs" "distinct (rev ups @ ?p # downs)"
      "list_all (zeroDelay (heap s)) (drop 1 downs)"
    by (auto simp add: chainInv_def)
  from upPath_head [OF w(1)] obtain P where P: "heap s ?p = Some P" by blast
  show ?thesis
  proof (cases downs)
    case Nil
    with w(2) P have "childState P = 0" by simp
    from transition_nochild [OF refl assms(2) P this]
    have "transitionState s = Inr (False, s)" .
    moreover have "chainInv 0 s"
      using w(1,2,3) Nil by (intro chainInv_I [where ups = ups and downs = "[]"]) simp_all
    ultimately show ?thesis by blast
  next
    case (Cons k ks)
    with w(2) P obtain K where
      k: "k \<noteq> 0" "childState P = k" "heap s k = Some K" "parentState K = ?p"
        "downPath (heap s) k ks"
      by (auto split: option.splits)
    have kp: "k \<noteq> ?p" using w(3) Cons by auto
    have zks: "list_all (zeroDelay (heap s)) ks" using w(4) Cons by simp
    let ?h' = "(heap s)(k := consumed K, ?p \<mapsto> observed K P)"
    have tr: "transitionState s = Inr (finished K, s\<lparr>heap := ?h'\<rparr>)"
      by (rule transition_closed [OF refl assms(2) P k(2,1) kp k(3)])
    have "chainInv 0 (s\<lparr>heap := ?h'\<rparr>)"
    proof (cases "finished K")
      case True
      have "upPath ?h' ?p ups"
        by (rule upPath_frame [OF w(1) _ P, where C' = "observed K P"])
          (use w(3) Cons True in \<open>auto simp add: observed_finished\<close>)
      moreover have "downPath ?h' ?p []"
        using True by (simp add: observed_finished)
      ultimately show ?thesis
        using w(3) by (intro chainInv_I [where ups = ups and downs = "[]"]) simp_all
    next
      case False
      from consumed_quiet [OF False] obtain K' where
        K': "consumed K = Some K'" "links K' = links K" "delayUntil K' = 0" by blast
      have 1: "upPath ((heap s)(k \<mapsto> K')) ?p ups \<and> downPath ((heap s)(k \<mapsto> K')) ?p downs"
        by (rule paths_modify [OF w(1,2) k(3) K'(2)])
      have 2: "((heap s)(k \<mapsto> K')) ?p = Some P" using P kp by simp
      have 3: "upPath ((heap s)(k \<mapsto> K', ?p \<mapsto> observed K P)) ?p ups \<and>
          downPath ((heap s)(k \<mapsto> K', ?p \<mapsto> observed K P)) ?p downs"
        by (rule paths_modify [OF 1 [THEN conjunct1] 1 [THEN conjunct2] 2
              observed_links [OF False]])
      have eq: "?h' = (heap s)(k \<mapsto> K', ?p \<mapsto> observed K P)"
        using K'(1) by simp
      with 3 have 4: "upPath ?h' ?p ups \<and> downPath ?h' ?p downs"
        by (simp only:)
      have "list_all (zeroDelay ?h') ks"
        by (rule zeroDelay_kept [OF zks]) (use w(3) Cons in auto)
      moreover have "zeroDelay ?h' k"
        using K'(1,3) kp by (simp add: zeroDelay_def)
      ultimately have "list_all (zeroDelay ?h') (drop 0 downs)"
        using Cons by simp
      with 4 show ?thesis
        using w(3) by (intro chainInv_I [where ups = ups and downs = downs]) simp_all
    qed
    with tr show ?thesis by simp
  qed
qed

lemma inv_current:
  assumes "chainInv q s" "currentState s \<noteq> 0"
  shows "\<exists>f. heap s (currentState s) = Some f"
  using assms upPath_head by (fastforce simp add: chainInv_def)

lemma suspend_inv:
  assumes "chainInv 0 s" "currentState s \<noteq> 0"
  shows "\<exists>b s'. suspend n d now s = Inr (b, s') \<and> chainInv 0 s' \<and> currentState s' \<noteq> 0"
proof -
  from inv_current [OF assms] obtain cur where cur: "heap s (currentState s) = Some cur" by blast
  from popState_inv [OF assms(1), of "currentStep cur" n] assms(2) obtain s1 where
    s1: "popState (currentStep cur) n s = Inr s1" "chainInv 1 s1" "currentState s1 \<noteq> 0"
    by blast
  have "\<exists>s2. (if d > 0 then modify (currentState s1) (\<lambda>f. f\<lparr>delayUntil := now + d\<rparr>) s1
               else Inr s1) = Inr s2 \<and> chainInv 1 s2 \<and> currentState s2 \<noteq> 0"
    using modify_inv [OF s1(2,3), of "\<lambda>f. f\<lparr>delayUntil := now + d\<rparr>"] s1(2,3)
    by (auto simp add: links_def)
  then obtain s2 where
    s2: "(if d > 0 then modify (currentState s1) (\<lambda>f. f\<lparr>delayUntil := now + d\<rparr>) s1
          else Inr s1) = Inr s2" "chainInv 1 s2" "currentState s2 \<noteq> 0"
    by blast
  from transition_inv [OF s2(2,3)] s2(3) obtain t s3 where
    s3: "transitionState s2 = Inr (t, s3)" "chainInv 0 s3" "currentState s3 \<noteq> 0"
    by auto
  from inv_current [OF s3(2,3)] obtain cur3 where
    cur3: "heap s3 (currentState s3) = Some cur3" by blast
  have "suspend n d now s = Inr (currentStep cur3 \<noteq> stepFailure, s3)"
    using cur assms(2) s1(1) s2(1) s3(1,3) cur3
    by (simp add: suspend_def deref_Some)
  with s3 show ?thesis by blast
qed

lemma suspend0_inv:
  assumes "chainInv 0 s" "currentState s \<noteq> 0"
  shows "\<exists>b s'. suspend0 now s = Inr (b, s') \<and> chainInv 0 s' \<and> currentState s' \<noteq> 0"
proof -
  from inv_current [OF assms] obtain cur where cur: "heap s (currentState s) = Some cur" by blast
  then have "suspend0 now s = suspend (currentStep cur) 0 now s"
    using assms(2) by (simp add: suspend0_def deref_Some)
  with suspend_inv [OF assms] show ?thesis by simp
qed

lemma end_call_inv:
  assumes "chainInv 0 s" "currentState s \<noteq> 0"
  shows "\<exists>s'. end_call status s = Inr (status, s') \<and> chainInv 0 s' \<and> currentState s' \<noteq> 0"
proof -
  let ?st = "if status then stepSuccess else stepFailure"
  from popState_inv [OF assms(1), of ?st 0] assms(2) obtain s1 where
    s1: "popState ?st 0 s = Inr s1" "chainInv 1 s1" "currentState s1 \<noteq> 0"
    by blast
  from transition_inv [OF s1(2,3)] s1(3) obtain t s2 where
    s2: "transitionState s1 = Inr (t, s2)" "chainInv 0 s2" "currentState s2 \<noteq> 0"
    by auto
  have "end_call status s = Inr (status, s2)"
    using s1(1) s2(1) by (cases status) (simp_all add: end_call_def)
  with s2 show ?thesis by blast
qed

lemma ascend_inv:
  assumes "chainInv 0 s" "currentState s \<noteq> 0"
  shows "\<exists>b s'. ascend x s = Inr (b, s') \<and> chainInv 0 s' \<and> currentState s' \<noteq> 0"
proof (cases x)
  case (Suspend n d now)
  with suspend_inv [OF assms] show ?thesis by simp
next
  case (SuspendSame now)
  with suspend0_inv [OF assms] show ?thesis by simp
next
  case (End status)
  with end_call_inv [OF assms, of status] show ?thesis by auto
qed

lemma begin_root_closed:
  assumes "currentState s = 0" "a \<noteq> 0"
  shows "begin_call a fn fs s =
    Inr (fs, s\<lparr>heap := (heap s)(a \<mapsto> newFrame fn fs 0), currentState := a\<rparr>)"
  using assms by (simp add: begin_call_def createState_def returnStep_def deref_def)

lemma begin_new_inv:
  assumes "upPath h c ups" "distinct (rev ups @ [c])" "h c = Some C" "a \<noteq> 0"
    "a \<notin> set (c # ups)" "\<forall>b \<in> set (c # ups). h' b = h b"
    "heap s' = h'(a \<mapsto> newFrame fn fs c, c \<mapsto> C\<lparr>childState := a\<rparr>)" "currentState s' = a"
  shows "chainInv 0 s'"
proof -
  let ?h = "h'(a \<mapsto> newFrame fn fs c, c \<mapsto> C\<lparr>childState := a\<rparr>)"
  have ac: "a \<noteq> c" using assms(5) by simp
  have "upPath ?h c ups"
    by (rule upPath_frame [OF assms(1) _ assms(3), where C' = "C\<lparr>childState := a\<rparr>"])
      (use assms(2,5,6) in auto)
  moreover have "c \<noteq> 0" using assms(1) by (cases ups) auto
  ultimately have "upPath ?h a (c # ups)"
    using assms(4) ac by simp
  moreover have "downPath ?h a []" using ac by simp
  moreover have "distinct (rev (c # ups) @ a # [])" using assms(2,5) by auto
  ultimately show ?thesis
    using assms(7,8) by (intro chainInv_I [where ups = "c # ups" and downs = "[]"]) simp_all
qed

lemma begin_inv:
  assumes "chainInv 0 s" "allocatable a fn s"
  shows "\<exists>r s'. begin_call a fn fs s = Inr (r, s') \<and> chainInv 0 s' \<and> currentState s' \<noteq> 0"
proof (cases "currentState s = 0")
  case True
  from assms(2) have a: "a \<noteq> 0" by (simp add: allocatable_def)
  have "chainInv 0 (s\<lparr>heap := (heap s)(a \<mapsto> newFrame fn fs 0), currentState := a\<rparr>)"
    using a by (intro chainInv_I [where ups = "[]" and downs = "[]"]) simp_all
  with begin_root_closed [OF True a, of fn fs] a show ?thesis by simp
next
  case False
  let ?c = "currentState s"
  from assms(1) False obtain ups downs where
    w: "upPath (heap s) ?c ups" "downPath (heap s) ?c downs" "distinct (rev ups @ ?c # downs)"
      "list_all (zeroDelay (heap s)) downs"
    by (auto simp add: chainInv_def)
  from upPath_head [OF w(1)] obtain C where C: "heap s ?c = Some C" by blast
  show ?thesis
  proof (cases "functionName C = fn")
    case True
    from begin_call_resume [OF False C True, of a fs] assms(1) False show ?thesis by simp
  next
    case other: False
    from assms(2) C False other have a: "a \<noteq> 0" "heap s a = None \<or> a = childState C"
      by (simp_all add: allocatable_def deref_Some)
    have d0: "distinct (rev ups @ [?c])" using w(3) by simp
    show ?thesis
    proof (cases downs)
      case Nil
      with w(2) C have ch: "childState C = 0" by simp
      with a have fresh: "heap s a = None" by simp
      then have notin: "a \<notin> set (?c # ups)" using upPath_alloc [OF w(1), of a] by auto
      have "begin_call a fn fs s =
          Inr (fs, s\<lparr>heap := (heap s)(a \<mapsto> newFrame fn fs ?c, ?c \<mapsto> C\<lparr>childState := a\<rparr>),
                     currentState := a\<rparr>)"
        using begin_nested_closed [OF refl False C other, of C a fs] ch a(1) fresh by simp
      moreover have "chainInv 0 (s\<lparr>heap := (heap s)(a \<mapsto> newFrame fn fs ?c, ?c \<mapsto> C\<lparr>childState := a\<rparr>),
                     currentState := a\<rparr>)"
        by (rule begin_new_inv [OF w(1) d0 C a(1) notin, of "heap s"]) simp_all
      ultimately show ?thesis using a(1) by simp
    next
      case (Cons k ks)
      with w(2) C obtain K where
        k: "k \<noteq> 0" "childState C = k" "heap s k = Some K" "parentState K = ?c"
          "downPath (heap s) k ks"
        by (auto split: option.splits)
      have kc: "k \<noteq> ?c" "k \<notin> set ups" using w(3) Cons by auto
      show ?thesis
      proof (cases "functionName K = fn")
        case True
        have "begin_call a fn fs s = Inr (currentStep K, s\<lparr>currentState := k\<rparr>)"
          using begin_nested_closed [OF refl False C other, of K a fs] k True by simp
        moreover have "upPath (heap s) k (?c # ups)"
          using w(1) k C by simp
        then have "chainInv 0 (s\<lparr>currentState := k\<rparr>)"
          using k(5) w(3,4) Cons
          by (intro chainInv_I [where ups = "?c # ups" and downs = ks]) simp_all
        ultimately show ?thesis using k(1) by simp
      next
        case False
        have notin: "a \<notin> set (?c # ups)"
          using a(2) upPath_alloc [OF w(1), of a] k(2) kc by auto
        have "begin_call a fn fs s =
            Inr (fs, s\<lparr>heap := (heap s)(k := None, a \<mapsto> newFrame fn fs ?c,
                                          ?c \<mapsto> C\<lparr>childState := a\<rparr>),
                       currentState := a\<rparr>)"
          using begin_nested_closed [OF refl \<open>?c \<noteq> 0\<close> C other, of K a fs,
              THEN conjunct2, THEN conjunct2, rule_format] k kc(1) False a
          by blast
        moreover have "chainInv 0 (s\<lparr>heap := (heap s)(k := None, a \<mapsto> newFrame fn fs ?c,
                                          ?c \<mapsto> C\<lparr>childState := a\<rparr>),
                       currentState := a\<rparr>)"
          by (rule begin_new_inv [OF w(1) d0 C a(1) notin, of "(heap s)(k := None)"])
            (use kc in auto)
        ultimately show ?thesis using a(1) by simp
      qed
    qed
  qed
qed

lemma destroy_wf:
  assumes "wfEngine s"
  shows "\<exists>s'. destroy s = Inr s' \<and> wfEngine s' \<and> currentState s' = 0"
proof (cases "currentState s = 0")
  case True
  with assms show ?thesis by (simp add: destroy_def)
next
  case False
  let ?c = "currentState s"
  from assms False obtain ups downs where
    w: "upPath (heap s) ?c ups" "downPath (heap s) ?c downs" "distinct (rev ups @ ?c # downs)"
    by (auto simp add: wfEngine_def)
  from upPath_head [OF w(1)] obtain C where C: "heap s ?c = Some C" by blast
  have "\<exists>s'. destroy s = Inr s' \<and> currentState s' = 0"
  proof (cases downs)
    case Nil
    with w(2) C have "childState C = 0" by simp
    with C False show ?thesis by (simp add: destroy_def deref_Some delete_Some)
  next
    case (Cons k ks)
    with w(2) C obtain K where k: "k \<noteq> 0" "childState C = k" "heap s k = Some K"
      by (auto split: option.splits)
    have "k \<noteq> ?c" using w(3) Cons by auto
    with C False k show ?thesis
      by (simp add: destroy_def deref_Some delete_def modify_def deref_def)
  qed
  then show ?thesis by (auto simp add: wfEngine_def)
qed

lemma ascend_empty: "currentState s = 0 \<Longrightarrow> ascend x s = Inl NullDeref"
proof (cases x)
  case (End status)
  assume "currentState s = 0"
  with End show ?thesis
    by (cases status) (simp_all add: end_call_def popState_def transitionState_def)
qed (simp_all add: suspend_def suspend0_def)

text \<open>
  Every reachable state is well formed, and its frames below the current one hold no
  delay. So whenever a reachable engine has a current frame, that frame has a path of
  distinct ancestors up to a root, as the theorems about \<open>end\<close>, failure and delays
  assume; and every public call that needs a current frame returns without touching a
  null or dangling pointer.
\<close>

lemma reachable_quiet: "reachable s \<Longrightarrow> chainInv 0 s"
proof (induction rule: reachable.induct)
  case r_empty
  show ?case by (simp add: chainInv_def empty_engine_def)
next
  case (r_begin s a fn fs r s')
  from begin_inv [OF r_begin.IH r_begin.hyps(2), of fs] r_begin.hyps(3) show ?case by simp
next
  case (r_ascend s x b s')
  show ?case
  proof (cases "currentState s = 0")
    case True
    from ascend_empty [OF True, of x] r_ascend.hyps(2) show ?thesis by simp
  next
    case False
    from ascend_inv [OF r_ascend.IH False, of x] r_ascend.hyps(2) show ?thesis by simp
  qed
next
  case (r_resetDelay s d s')
  show ?case
  proof (cases "currentState s = 0")
    case True
    with r_resetDelay.hyps(2) show ?thesis by (simp add: resetDelay_def)
  next
    case False
    from inv_current [OF r_resetDelay.IH False] obtain f where
      "heap s (currentState s) = Some f" by blast
    with modify_inv [OF r_resetDelay.IH False, of "\<lambda>f. f\<lparr>delayUntil := 0\<rparr>"]
      r_resetDelay.hyps(2) False
    show ?thesis by (auto simp add: resetDelay_def deref_Some links_def)
  qed
next
  case (r_setState_int s i s')
  then show ?case
    using modify_inv [of 0 s "\<lambda>f. f\<lparr>int1 := i\<rparr>"]
    by (cases "currentState s = 0") (auto simp add: setState_int_def links_def)
next
  case (r_setState_uint8 s u s')
  then show ?case
    using modify_inv [of 0 s "\<lambda>f. f\<lparr>uint1 := u\<rparr>"]
    by (cases "currentState s = 0") (auto simp add: setState_uint8_def links_def)
next
  case (r_setState_ulong s l s')
  then show ?case
    using modify_inv [of 0 s "\<lambda>f. f\<lparr>ulong1 := l\<rparr>"]
    by (cases "currentState s = 0") (auto simp add: setState_ulong_def links_def)
next
  case (r_setState_String s t s')
  then show ?case
    using modify_inv [of 0 s "\<lambda>f. f\<lparr>string1 := t\<rparr>"]
    by (cases "currentState s = 0") (auto simp add: setState_String_def links_def)
next
  case (r_destroy s s')
  from destroy_current [OF r_destroy.hyps(2)] show ?case by (simp add: chainInv_def)
qed



lemma reachable_wf: "reachable s \<Longrightarrow> wfEngine s"
  by (rule chainInv_wf [OF reachable_quiet])

lemma reachable_chain:
  assumes "reachable s" "currentState s \<noteq> 0"
  shows "\<exists>ups. upPath (heap s) (currentState s) ups \<and> distinct (currentState s # ups)"
proof -
  from reachable_wf [OF assms(1)] assms(2) obtain ups downs where
    "upPath (heap s) (currentState s) ups" "distinct (rev ups @ currentState s # downs)"
    by (auto simp add: wfEngine_def)
  then show ?thesis by (intro exI [where x = ups]) auto
qed

lemma reachable_safe:
  assumes "reachable s"
  shows "(currentState s \<noteq> 0 \<longrightarrow>
      (\<exists>r. suspend n d now s = Inr r) \<and> (\<exists>r. suspend0 now s = Inr r) \<and>
      (\<exists>r. end_call b s = Inr r) \<and> (\<exists>r. resetDelay s = Inr r) \<and>
      (\<exists>r. setState_int i s = Inr r) \<and> (\<exists>r. setState_uint8 u s = Inr r) \<and>
      (\<exists>r. setState_ulong l s = Inr r) \<and> (\<exists>r. setState_String t s = Inr r) \<and>
      (\<exists>r. getState_int s = Inr r) \<and> (\<exists>r. getState_uint8 s = Inr r) \<and>
      (\<exists>r. getState_ulong s = Inr r) \<and> (\<exists>r. getState_String s = Inr r)) \<and>
    (\<exists>r. getStatus s = Inr r) \<and> (\<exists>r. destroy s = Inr r) \<and>
    (allocatable a fn s \<longrightarrow> (\<exists>r. begin_call a fn fs s = Inr r))"
proof -
  note wf = reachable_quiet [OF assms]
  have "\<exists>r. getStatus s = Inr r"
    using inv_current [OF wf] by (auto simp add: getStatus_def deref_Some)
  moreover have "\<exists>r. destroy s = Inr r"
    using destroy_wf [OF chainInv_wf [OF wf]] by blast
  moreover have "\<exists>r. begin_call a fn fs s = Inr r" if "allocatable a fn s"
    using begin_inv [OF wf that, of fs] by blast
  moreover have "(\<exists>r. suspend n d now s = Inr r) \<and> (\<exists>r. suspend0 now s = Inr r) \<and>
      (\<exists>r. end_call b s = Inr r) \<and> (\<exists>r. resetDelay s = Inr r) \<and>
      (\<exists>r. setState_int i s = Inr r) \<and> (\<exists>r. setState_uint8 u s = Inr r) \<and>
      (\<exists>r. setState_ulong l s = Inr r) \<and> (\<exists>r. setState_String t s = Inr r) \<and>
      (\<exists>r. getState_int s = Inr r) \<and> (\<exists>r. getState_uint8 s = Inr r) \<and>
      (\<exists>r. getState_ulong s = Inr r) \<and> (\<exists>r. getState_String s = Inr r)"
    if nz: "currentState s \<noteq> 0"
  proof -
    from inv_current [OF wf nz] obtain f where f: "heap s (currentState s) = Some f" by blast
    have "\<exists>r. suspend n d now s = Inr r" using suspend_inv [OF wf nz, of n d now] by blast
    moreover have "\<exists>r. suspend0 now s = Inr r" using suspend0_inv [OF wf nz, of now] by blast
    moreover have "\<exists>r. end_call b s = Inr r" using end_call_inv [OF wf nz, of b] by blast
    ultimately show ?thesis
      using f nz
      by (simp add: resetDelay_def setState_int_def setState_uint8_def setState_ulong_def
          setState_String_def getState_int_def getState_uint8_def getState_ulong_def
          getState_String_def modify_Some deref_Some)
  qed
  ultimately show ?thesis by blast
qed

section \<open>Delays in reachable states\<close>

lemma upPath_nonnull: "upPath h c ups \<Longrightarrow> c \<noteq> 0"
  by (cases ups) auto

lemma upPath_unique: "upPath h c ups \<Longrightarrow> upPath h c ups' \<Longrightarrow> ups = ups'"
proof (induction ups arbitrary: c ups')
  case Nil
  show ?case
  proof (cases ups')
    case (Cons p' ps')
    with Nil upPath_tail [of h c p' ps'] show ?thesis by (auto split: option.splits)
  qed simp
next
  case (Cons p ps)
  show ?case
  proof (cases ups')
    case Nil
    with Cons.prems upPath_tail [of h c p ps] show ?thesis by (auto split: option.splits)
  next
    case (Cons p' ps')
    with Cons.prems have "p' = p" by (auto split: option.splits)
    moreover from Cons.prems Cons this have "upPath h p ps" "upPath h p ps'"
      using upPath_tail by blast+
    ultimately show ?thesis using Cons.IH Cons by simp
  qed
qed

lemma downPath_unique: "downPath h c ks \<Longrightarrow> downPath h c ks' \<Longrightarrow> ks = ks'"
proof (induction ks arbitrary: c ks')
  case Nil
  then show ?case by (cases ks') (auto split: option.splits)
next
  case (Cons k ks)
  show ?case
  proof (cases ks')
    case Nil
    with Cons.prems show ?thesis by (auto split: option.splits)
  next
    case (Cons k' ks'')
    with Cons.prems have "k' = k" by (auto split: option.splits)
    moreover from Cons.prems Cons this have "downPath h k ks" "downPath h k ks''" by simp_all
    ultimately show ?thesis using Cons.IH Cons by simp
  qed
qed

lemma reachable_paths:
  assumes "reachable s" "upPath (heap s) (currentState s) ups"
    "downPath (heap s) (currentState s) downs"
  shows "distinct (rev ups @ currentState s # downs) \<and> list_all (zeroDelay (heap s)) downs"
proof -
  from assms(2) have "currentState s \<noteq> 0" by (cases ups) auto
  with reachable_quiet [OF assms(1)] obtain ups' downs' where
    w: "upPath (heap s) (currentState s) ups'" "downPath (heap s) (currentState s) downs'"
      "distinct (rev ups' @ currentState s # downs')" "list_all (zeroDelay (heap s)) downs'"
    by (auto simp add: chainInv_def)
  from upPath_unique [OF w(1) assms(2)] downPath_unique [OF w(2) assms(3)] w(3,4)
  show ?thesis by simp
qed

lemma reach_exABCD4: "begin_call 4 ''D'' 1 exABC3 = Inr (1, exABCD4)"
  by (simp add: begin_call_def newChild_def createState_def returnStep_def modify_def deref_def
      exABC3_def exABCD4_def fun_upd_twist)

lemma reach_exDelay3': "suspend 2 500 1000 exABCD4 = Inr (True, exDelay3)"
  by (simp add: suspend_def popState_def modify_def deref_def transitionState_def
      exABCD4_def exDelay3_def stepFailure_def stepSuccess_def newFrame_def fun_upd_twist)

lemma reachable_exDelay3: "reachable exDelay3"
proof -
  have "reachable exA"
    by (rule r_begin [OF r_empty _ reach_exA]) (simp add: allocatable_def empty_engine_def)
  then have "reachable exAB2"
    by (rule r_begin [OF _ _ reach_exAB2]) (simp add: allocatable_def exA_def)
  then have "reachable exABC3"
    by (rule r_begin [OF _ _ reach_exABC3]) (simp add: allocatable_def exAB2_def)
  then have "reachable exABCD4"
    by (rule r_begin [OF _ _ reach_exABCD4]) (simp add: allocatable_def exABC3_def)
  then show ?thesis
    by (rule r_ascend [where x = "Suspend 2 500 1000"]) (simp add: reach_exDelay3')
qed

text \<open>
  C6, as stated, fails. In the reachable state \<open>exDelay3\<close> the current frame \<open>C\<close> holds the
  delay 1500. It calls \<open>suspend(2, 9000)\<close> at time 2000: the delay 11000 is set on its
  parent \<open>B\<close>, one level below the root (\<open>exDelayMid\<close>), and the transition check of the
  same call replaces it by the 1500 of \<open>C\<close> (\<open>exDelay2\<close>). After the one further ascent,
  from \<open>B\<close>, the root holds 1500: the delay 11000 that was set on \<open>B\<close> never becomes the
  delay of the root.
\<close>

theorem delay_overwritten_counterexample:
  "andThen (popState 1 2 exDelay3) (modify 2 (\<lambda>f. f\<lparr>delayUntil := 2000 + 9000\<rparr>)) =
     Inr exDelayMid \<and>
   map_option delayUntil (heap exDelayMid 2) = Some 11000 \<and>
   transitionState exDelayMid = Inr (False, exDelay2) \<and>
   suspend 2 9000 2000 exDelay3 = Inr (True, exDelay2) \<and>
   map_option delayUntil (heap exDelay2 2) = Some 1500 \<and>
   suspend0 0 exDelay2 = Inr (True, exDelay1) \<and>
   map_option delayUntil (heap exDelay1 1) = Some 1500"
  by (simp add: suspend_def suspend0_def popState_def modify_def deref_def transitionState_def
      exDelay3_def exDelayMid_def exDelay2_def exDelay1_def stepFailure_def stepSuccess_def
      newFrame_def fun_upd_twist)

text \<open>
  C6, amended. In a reachable state let the current frame hold a nonzero delay \<open>D\<close>, let
  \<open>ups\<close> be its ancestors (parent first, root last) and \<open>downs\<close> the frames below it.
  After \<open>k\<close> ascents in a row, by any of the three calls and with any arguments, whatever
  delay they ask for themselves, the frame \<open>k\<close> levels up is current and holds \<open>D\<close>, and
  the frames below it, those passed on the way and \<open>downs\<close>, hold no delay (or are
  freed). With \<open>k = length ups\<close>, the number of levels below the root, the current frame
  is the root, and every other frame of the chain holds no delay.
\<close>

theorem delay_reaches_root:
  assumes "reachable s" "upPath (heap s) (currentState s) ups"
    "downPath (heap s) (currentState s) downs"
    "heap s (currentState s) = Some C" "delayUntil C = D" "D \<noteq> 0" "length xs \<le> length ups"
  shows "\<exists>s' F. ascends xs s = Inr s' \<and>
    currentState s' = (currentState s # ups) ! length xs \<and>
    heap s' (currentState s') = Some F \<and> delayUntil F = D \<and>
    (\<forall>a \<in> set downs \<union> set (take (length xs) (currentState s # ups)). zeroDelay (heap s') a) \<and>
    (length xs = length ups \<longrightarrow> currentState s' = last (currentState s # ups) \<and>
       parentState F = 0 \<and>
       (\<forall>a \<in> set downs \<union> set (butlast (currentState s # ups)). zeroDelay (heap s') a))"
proof -
  let ?c = "currentState s"
  from reachable_paths [OF assms(1-3)] have
    d: "distinct (rev ups @ ?c # downs)" and z: "list_all (zeroDelay (heap s)) downs"
    by simp_all
  have d1: "distinct (?c # ups)" using d by auto
  have d2: "set downs \<inter> set (?c # ups) = {}" using d by auto
  have z': "\<forall>a\<in>set downs. zeroDelay (heap s) a" using z by (simp add: list_all_iff)
  from delay_climbs [OF assms(2) d1 refl assms(4,5,6,7) d2 z'] obtain s' F where
    r: "ascends xs s = Inr s'" "currentState s' = (?c # ups) ! length xs"
      "heap s' (currentState s') = Some F" "delayUntil F = D"
      "\<forall>a \<in> set downs \<union> set (take (length xs) (?c # ups)). zeroDelay (heap s') a"
      "upPath (heap s') (currentState s') (drop (length xs) ups)"
    by blast
  have root: "parentState F = 0" if "length xs = length ups"
    using that r(3,6) by simp
  have "(?c # ups) ! length ups = last (?c # ups)"
    by (simp add: last_conv_nth)
  moreover have "take (length ups) (?c # ups) = butlast (?c # ups)"
    by (simp add: butlast_conv_take)
  ultimately show ?thesis using r root by auto
qed


theorem delay_reaches_root_witness:
  "reachable exDelay3 \<and> upPath (heap exDelay3) 3 [2, 1] \<and> downPath (heap exDelay3) 3 [4] \<and>
   ascends [Suspend 2 9000 2000, SuspendSame 0] exDelay3 = Inr exDelay1 \<and>
   map_option delayUntil (heap exDelay1 1) = Some 1500 \<and>
   zeroDelay (heap exDelay1) 2 \<and> zeroDelay (heap exDelay1) 3 \<and> zeroDelay (heap exDelay1) 4"
proof -
  have c: "currentState exDelay3 = 3" by (simp add: exDelay3_def)
  have u: "upPath (heap exDelay3) (currentState exDelay3) [2, 1]"
    and d: "downPath (heap exDelay3) (currentState exDelay3) [4]"
    and h: "heap exDelay3 (currentState exDelay3) =
        Some ((newFrame ''C'' 1 2)\<lparr>childState := 4, delayUntil := 1500\<rparr>)"
    by (simp_all add: exDelay3_def)
  have run: "ascends [Suspend 2 9000 2000, SuspendSame 0] exDelay3 = Inr exDelay1"
    by (simp add: suspend_def suspend0_def popState_def modify_def deref_def transitionState_def
        exDelay3_def exDelay1_def stepFailure_def stepSuccess_def newFrame_def fun_upd_twist)
  from delay_reaches_root [OF reachable_exDelay3 u d h, of 1500
      "[Suspend 2 9000 2000, SuspendSame 0]"] run
  have "map_option delayUntil (heap exDelay1 1) = Some 1500 \<and>
    zeroDelay (heap exDelay1) 2 \<and> zeroDelay (heap exDelay1) 3 \<and> zeroDelay (heap exDelay1) 4"
    by (auto simp add: c)
  with reachable_exDelay3 u d run c show ?thesis by simp
qed

section \<open>Which calls check for an empty engine\<close>










end
